theory Spec2Isabelle
  imports Complex_Main
begin

section \<open>Errors\<close>

text \<open>Every \<^verbatim>\<open>throw new Error(msg)\<close> of the sources, and every rejection of a promise, is a
  value \<open>Error msg\<close>; a fallible operation returns \<open>error + 'a\<close> with \<open>Inl\<close> for the throw.\<close>

datatype error = Error string

section \<open>Ring container: class RingBuffer\<close>

text \<open>The class keeps an array \<open>buf\<close> of \<open>capacity\<close> slots (\<open>None\<close> is JavaScript's
  \<^verbatim>\<open>undefined\<close>), the index \<open>head\<close> of the oldest element and the number \<open>size\<close> of stored
  elements. The capacity is an integer: the constructor rejects a non-positive one, and
  \<^verbatim>\<open>new Array(capacity)\<close> raises on a fractional one.\<close>

record 'a ringBuffer =
  buf :: "'a option list"
  head :: nat
  size_rb :: nat
  capacity :: nat

definition newRingBuffer :: "int \<Rightarrow> error + 'a ringBuffer" where
  "newRingBuffer cap =
     (if cap \<le> 0 then Inl (Error ''Invalid ring buffer capacity'')
      else Inr \<lparr>buf = replicate (nat cap) None, head = 0, size_rb = 0, capacity = nat cap\<rparr>)"

text \<open>A read \<^verbatim>\<open>this.buf[idx]\<close>: outside the array JavaScript yields \<^verbatim>\<open>undefined\<close>.\<close>

definition slot :: "'a option list \<Rightarrow> nat \<Rightarrow> 'a option" where
  "slot b idx = (if idx < length b then b ! idx else None)"

definition length_rb :: "'a ringBuffer \<Rightarrow> nat" where
  "length_rb rb = size_rb rb"

definition maxSize :: "'a ringBuffer \<Rightarrow> nat" where
  "maxSize rb = capacity rb"

text \<open>\<^verbatim>\<open>push(item)\<close> returns the dropped element, if any, and the updated buffer.\<close>

definition push :: "'a \<Rightarrow> 'a ringBuffer \<Rightarrow> 'a option \<times> 'a ringBuffer" where
  "push item rb =
     (let (dropped, rb1) =
            (if size_rb rb = capacity rb
             then (slot (buf rb) (head rb),
                   rb\<lparr>buf := (buf rb)[head rb := None],
                      head := (head rb + 1) mod capacity rb,
                      size_rb := size_rb rb - 1\<rparr>)
             else (None, rb));
          tail = (head rb1 + size_rb rb1) mod capacity rb1
      in (dropped, rb1\<lparr>buf := (buf rb1)[tail := Some item], size_rb := size_rb rb1 + 1\<rparr>))"

text \<open>\<^verbatim>\<open>toArray()\<close>: the loop \<^verbatim>\<open>for (i = 0; i < size; i++)\<close> appends every defined slot.\<close>

definition toArray :: "'a ringBuffer \<Rightarrow> 'a list" where
  "toArray rb =
     fold (\<lambda>i out. case slot (buf rb) ((head rb + i) mod capacity rb) of
                      None \<Rightarrow> out | Some v \<Rightarrow> out @ [v])
          [0..<size_rb rb] []"

text \<open>\<^verbatim>\<open>drain(n)\<close> for an integer \<open>n\<close>: the loop reads and clears \<open>count\<close> slots, then the
  window is moved in one step.\<close>

definition drain_loop :: "'a ringBuffer \<Rightarrow> nat \<Rightarrow> 'a list \<times> 'a option list" where
  "drain_loop rb count =
     fold (\<lambda>i (out, b).
             let idx = (head rb + i) mod capacity rb
             in ((case slot b idx of None \<Rightarrow> out | Some v \<Rightarrow> out @ [v]), b[idx := None]))
          [0..<count] ([], buf rb)"

definition drain :: "int \<Rightarrow> 'a ringBuffer \<Rightarrow> 'a list \<times> 'a ringBuffer" where
  "drain n rb =
     (if n \<le> 0 then ([], rb)
      else
        let count = min (nat n) (size_rb rb);
            (out, b) = drain_loop rb count
        in (out, rb\<lparr>buf := b, head := (head rb + count) mod capacity rb,
                     size_rb := size_rb rb - count\<rparr>))"

text \<open>The representation invariant of the class: the array has \<open>capacity\<close> slots, the window
  \<open>head, head + 1, ..., head + size - 1\<close> (modulo the capacity) lies inside it and holds
  defined elements only.\<close>

definition rb_inv :: "'a ringBuffer \<Rightarrow> bool" where
  "rb_inv rb \<longleftrightarrow>
     0 < capacity rb \<and> length (buf rb) = capacity rb \<and> head rb < capacity rb \<and>
     size_rb rb \<le> capacity rb \<and>
     list_all (\<lambda>i. buf rb ! ((head rb + i) mod capacity rb) \<noteq> None) [0..<size_rb rb]"

text \<open>The stored elements, oldest first.\<close>

definition contents :: "'a ringBuffer \<Rightarrow> 'a list" where
  "contents rb = map (\<lambda>i. the (buf rb ! ((head rb + i) mod capacity rb))) [0..<size_rb rb]"

text \<open>A sequence of \<^verbatim>\<open>push\<close> calls: the reports of the calls, in order, and the final buffer.\<close>

fun pushAll :: "'a list \<Rightarrow> 'a ringBuffer \<Rightarrow> 'a option list \<times> 'a ringBuffer" where
  "pushAll [] rb = ([], rb)"
| "pushAll (x # xs) rb =
     (let (d, rb1) = push x rb; (ds, rb2) = pushAll xs rb1 in (d # ds, rb2))"

section \<open>Batch assembler: class LoreBatcher\<close>

text \<open>A round record carries its round number, two timestamps and a payload the batcher
  never inspects (the snapshot and the optional derived summary), kept as \<open>'p\<close>.\<close>

record 'p roundRecord =
  roundNumber :: int
  ts :: int
  receivedAt :: int
  snapshot :: 'p

text \<open>The identifier \<^verbatim>\<open>batch_${first}_${tail}_${Date.now()}\<close> is kept as its three numbers.\<close>

record batchId =
  fromRound :: int
  toRound :: int
  stamp :: int

record 'p loreBatch =
  batch_id :: batchId
  createdAt :: int
  rounds :: "'p roundRecord list"

record loreBatcherOptions =
  roundsCapacity :: int
  batchSize :: nat
  pendingCapacity :: int

text \<open>What \<^verbatim>\<open>ingest\<close> does to the outside: its log lines (with the fields the claims read)
  and the call of the registered \<^verbatim>\<open>onBatchReady\<close> callback.\<close>

datatype batcher_event =
    Lore_round_evicted int
  | Lore_round_ingested int nat
  | Lore_batch_ready batchId nat int int
  | OnBatchReady

record 'p loreBatcher =
  opts :: loreBatcherOptions
  roundsRing :: "'p roundRecord ringBuffer"
  pendingBatches :: "'p loreBatch ringBuffer"
  unbatchedQueue :: "'p roundRecord list"
  trace :: "batcher_event list"

definition newLoreBatcher :: "loreBatcherOptions \<Rightarrow> error + 'p loreBatcher" where
  "newLoreBatcher os =
     (case newRingBuffer (roundsCapacity os) of
        Inl e \<Rightarrow> Inl e
      | Inr r \<Rightarrow>
          (case newRingBuffer (pendingCapacity os) of
             Inl e \<Rightarrow> Inl e
           | Inr p \<Rightarrow> Inr \<lparr>opts = os, roundsRing = r, pendingBatches = p,
                            unbatchedQueue = [], trace = []\<rparr>))"

text \<open>The loop \<^verbatim>\<open>while (unbatchedQueue.length >= batchSize)\<close> of \<^verbatim>\<open>ingest\<close>. \<open>now k\<close> is
  the \<open>k\<close>-th reading of \<^verbatim>\<open>Date.now()\<close> during the call; iteration \<open>j\<close> reads the clock twice.
  \<^verbatim>\<open>splice(0, batchSize)\<close> cuts the first \<open>batchSize\<close> records off the queue; with a batch
  size of zero it cuts nothing and \<^verbatim>\<open>rounds[rounds.length - 1]!.roundNumber\<close> raises a
  TypeError (a negative batch size would do the same). The element a full pending ring
  drops is not looked at. The callback is recorded in the trace and does not run here: what
  it does to the pending ring is the worker's \<^verbatim>\<open>tick\<close>.\<close>

function form_batches :: "(nat \<Rightarrow> int) \<Rightarrow> nat \<Rightarrow> 'p loreBatcher \<Rightarrow> error + 'p loreBatcher" where
  "form_batches now j b =
     (if batchSize (opts b) \<le> length (unbatchedQueue b) then
        (case take (batchSize (opts b)) (unbatchedQueue b) of
           [] \<Rightarrow> Inl (Error ''TypeError: cannot read roundNumber of undefined'')
         | r0 # rs \<Rightarrow>
             let tailRound = roundNumber (last (r0 # rs));
                 bid = \<lparr>fromRound = roundNumber r0, toRound = tailRound, stamp = now (2 * j)\<rparr>;
                 batch = \<lparr>batch_id = bid, createdAt = now (2 * j + 1), rounds = r0 # rs\<rparr>;
                 pend = snd (push batch (pendingBatches b))
             in form_batches now (j + 1)
                  (b\<lparr>unbatchedQueue := drop (batchSize (opts b)) (unbatchedQueue b),
                     pendingBatches := pend,
                     trace := trace b @ [Lore_batch_ready bid (length (r0 # rs))
                                           (roundNumber r0) tailRound,
                                         OnBatchReady]\<rparr>))
      else Inr b)"
  by pat_completeness auto
termination
proof (relation "measure (\<lambda>(now, j, b). length (unbatchedQueue b))")
  show "wf (measure (\<lambda>(now, j, b). length (unbatchedQueue b)))" by simp
next
  fix now :: "nat \<Rightarrow> int" and j :: nat and b :: "'p loreBatcher"
    and r0 :: "'p roundRecord" and rs tailRound bid batch pend
  assume le: "batchSize (opts b) \<le> length (unbatchedQueue b)"
    and tk: "take (batchSize (opts b)) (unbatchedQueue b) = r0 # rs"
  from tk have "batchSize (opts b) \<noteq> 0" by (cases "batchSize (opts b)") auto
  with le show "((now, j + 1,
           b\<lparr>unbatchedQueue := drop (batchSize (opts b)) (unbatchedQueue b),
              pendingBatches := pend,
              trace := trace b @ [Lore_batch_ready bid (length (r0 # rs))
                                    (roundNumber r0) tailRound, OnBatchReady]\<rparr>),
          now, j, b) \<in> measure (\<lambda>(now, j, b). length (unbatchedQueue b))"
    by simp
qed

text \<open>\<^verbatim>\<open>ingest(record)\<close>: the record goes to the rounds ring (an eviction is logged) and to
  the end of the unbatched queue, then the loop forms the batches that are due.\<close>

definition ingest :: "(nat \<Rightarrow> int) \<Rightarrow> 'p roundRecord \<Rightarrow> 'p loreBatcher \<Rightarrow> error + 'p loreBatcher" where
  "ingest now record b =
     (let (dropped, ring) = push record (roundsRing b);
          evicted = (case dropped of None \<Rightarrow> []
                     | Some d \<Rightarrow> [Lore_round_evicted (roundNumber d)]);
          queue = unbatchedQueue b @ [record]
      in form_batches now 0
           (b\<lparr>roundsRing := ring, unbatchedQueue := queue,
              trace := trace b @ evicted @
                       [Lore_round_ingested (roundNumber record) (length queue)]\<rparr>))"

text \<open>Records delivered one after the other, each with the clock of its call; the first
  failing call ends the run.\<close>

fun ingestAll :: "((nat \<Rightarrow> int) \<times> 'p roundRecord) list \<Rightarrow> 'p loreBatcher \<Rightarrow> error + 'p loreBatcher" where
  "ingestAll [] b = Inr b"
| "ingestAll ((now, r) # ds) b =
     (case ingest now r b of Inl e \<Rightarrow> Inl e | Inr b1 \<Rightarrow> ingestAll ds b1)"

definition drainPending :: "int \<Rightarrow> 'p loreBatcher \<Rightarrow> 'p loreBatch list \<times> 'p loreBatcher" where
  "drainPending n b =
     (let (out, pend) = drain n (pendingBatches b) in (out, b\<lparr>pendingBatches := pend\<rparr>))"

text \<open>The batch that the loop cuts from a queue starting with \<open>rs\<close>, at its \<open>j\<close>-th iteration.\<close>

definition batch_of :: "(nat \<Rightarrow> int) \<Rightarrow> nat \<Rightarrow> 'p roundRecord list \<Rightarrow> 'p loreBatch" where
  "batch_of now j rs =
     \<lparr>batch_id = \<lparr>fromRound = roundNumber (hd rs), toRound = roundNumber (last rs),
                   stamp = now (2 * j)\<rparr>,
      createdAt = now (2 * j + 1), rounds = rs\<rparr>"

definition is_batch_ready :: "batcher_event \<Rightarrow> bool" where
  "is_batch_ready e = (case e of Lore_batch_ready _ _ _ _ \<Rightarrow> True | _ \<Rightarrow> False)"

section \<open>Single-flight permit gate: class Semaphore\<close>

text \<open>The class holds the number of free permits and the queue of waiters. Every call of
  \<^verbatim>\<open>acquire\<close> is numbered in call order (\<open>calls\<close> counts them), and the number names the
  promise it returned, its waiter object and the release closure it is granted. A waiter
  records whether \<^verbatim>\<open>setTimeout\<close> armed a timer for it. The closure variable
  \<^verbatim>\<open>released\<close> of a release function is false exactly for the numbers in \<open>live\<close>: these are
  the callers that hold a permit. \<open>granted\<close> lists the promises resolved with a release
  function, in the order of resolution, and \<open>rejected\<close> those rejected with the queue timeout
  error.\<close>

record waiter =
  wid :: nat
  timer :: bool

record semaphore =
  sem_capacity :: int
  available :: int
  queue :: "waiter list"
  calls :: nat
  live :: "nat list"
  granted :: "nat list"
  rejected :: "nat list"


text \<open>What happens to a semaphore: a call \<^verbatim>\<open>acquire(timeoutMs)\<close>, a call of the release function
  granted to call \<open>c\<close>, and the runtime running the timer callback of waiter \<open>c\<close>.\<close>

datatype sem_event = Acquire "int option" | Release nat | TimerFires nat

text \<open>\<^verbatim>\<open>acquire(timeoutMs)\<close>: with a free permit the promise resolves at once; otherwise the
  waiter is appended to the queue, with a timer when \<^verbatim>\<open>timeoutMs && timeoutMs > 0\<close>.\<close>

definition acquire :: "int option \<Rightarrow> semaphore \<Rightarrow> semaphore" where
  "acquire timeoutMs s =
     (if available s > 0
      then s\<lparr>available := available s - 1, calls := calls s + 1,
             live := live s @ [calls s], granted := granted s @ [calls s]\<rparr>
      else s\<lparr>calls := calls s + 1,
             queue := queue s @
               [\<lparr>wid = calls s,
                 timer = (case timeoutMs of None \<Rightarrow> False | Some ms \<Rightarrow> ms \<noteq> 0 \<and> ms > 0)\<rparr>]\<rparr>)"

text \<open>The release function of call \<open>c\<close>: a second call returns at once; the first one frees the
  permit and, when the queue is not empty, takes it again for the waiter \<^verbatim>\<open>queue.shift()\<close>,
  whose timer is cleared and whose promise is resolved.\<close>

definition release :: "nat \<Rightarrow> semaphore \<Rightarrow> semaphore" where
  "release c s =
     (if c \<notin> set (live s) then s
      else
        let s1 = s\<lparr>live := remove1 c (live s), available := available s + 1\<rparr>
        in case queue s1 of
             [] \<Rightarrow> s1
           | next # rest \<Rightarrow>
               s1\<lparr>queue := rest, available := available s1 - 1,
                  live := live s1 @ [wid next], granted := granted s1 @ [wid next]\<rparr>)"

text \<open>\<^verbatim>\<open>queue.indexOf(waiter)\<close> followed by \<^verbatim>\<open>splice(idx, 1)\<close>: the first entry of the waiter
  is removed, if there is one.\<close>

fun splice_waiter :: "nat \<Rightarrow> waiter list \<Rightarrow> waiter list" where
  "splice_waiter c [] = []"
| "splice_waiter c (w # ws) = (if wid w = c then ws else w # splice_waiter c ws)"

text \<open>The timer callback of waiter \<open>c\<close>. The runtime runs it only for a timer that was armed and
  not cleared, that is for a waiter still in the queue with its timer; then the waiter leaves
  the queue and its promise is rejected.\<close>

definition timerFires :: "nat \<Rightarrow> semaphore \<Rightarrow> semaphore" where
  "timerFires c s =
     (if \<lparr>wid = c, timer = True\<rparr> \<in> set (queue s)
      then s\<lparr>queue := splice_waiter c (queue s), rejected := rejected s @ [c]\<rparr>
      else s)"

fun step :: "sem_event \<Rightarrow> semaphore \<Rightarrow> semaphore" where
  "step (Acquire t) s = acquire t s"
| "step (Release c) s = release c s"
| "step (TimerFires c) s = timerFires c s"

fun run :: "sem_event list \<Rightarrow> semaphore \<Rightarrow> semaphore" where
  "run [] s = s"
| "run (e # es) s = run es (step e s)"



section \<open>JavaScript strings and regular expressions\<close>

text \<open>A JavaScript string is a sequence of UTF-16 code units; \<^verbatim>\<open>length\<close>, \<^verbatim>\<open>slice\<close> and
  \<^verbatim>\<open>includes\<close> count and compare code units. A code unit is an integer here (a string
  of the program has code units from 0 to 65535), and \<open>js\<close> writes an ASCII literal.\<close>

type_synonym jsString = "int list"

definition js :: "string \<Rightarrow> jsString" where
  "js s = map of_char s"

text \<open>The white space of \<^verbatim>\<open>trim()\<close> and of the class \<^verbatim>\<open>\s\<close>: the WhiteSpace and
  LineTerminator code points of ECMAScript.\<close>

definition isWhiteSpace :: "int \<Rightarrow> bool" where
  "isWhiteSpace c \<longleftrightarrow>
     c = 9 \<or> c = 10 \<or> c = 11 \<or> c = 12 \<or> c = 13 \<or> c = 32 \<or> c = 160 \<or> c = 5760 \<or>
     (8192 \<le> c \<and> c \<le> 8202) \<or> c = 8232 \<or> c = 8233 \<or> c = 8239 \<or> c = 8287 \<or>
     c = 12288 \<or> c = 65279"

definition isDigit :: "int \<Rightarrow> bool" where
  "isDigit c \<longleftrightarrow> 48 \<le> c \<and> c \<le> 57"

definition isUpperAZ :: "int \<Rightarrow> bool" where
  "isUpperAZ c \<longleftrightarrow> 65 \<le> c \<and> c \<le> 90"

definition isLowerAZ :: "int \<Rightarrow> bool" where
  "isLowerAZ c \<longleftrightarrow> 97 \<le> c \<and> c \<le> 122"

text \<open>The class \<^verbatim>\<open>\w\<close>, which is also \<^verbatim>\<open>[A-Za-z0-9_]\<close>.\<close>

definition isWordChar :: "int \<Rightarrow> bool" where
  "isWordChar c \<longleftrightarrow> isUpperAZ c \<or> isLowerAZ c \<or> isDigit c \<or> c = 95"

text \<open>Under the flag \<^verbatim>\<open>i\<close> (without \<^verbatim>\<open>u\<close>) an ASCII letter of the pattern matches its two
  cases and nothing else.\<close>

definition asciiUpper :: "int \<Rightarrow> int" where
  "asciiUpper c = (if isLowerAZ c then c - 32 else c)"

definition asciiLower :: "int \<Rightarrow> int" where
  "asciiLower c = (if isUpperAZ c then c + 32 else c)"

definition trimStart :: "jsString \<Rightarrow> jsString" where
  "trimStart s = dropWhile isWhiteSpace s"

definition trimEnd :: "jsString \<Rightarrow> jsString" where
  "trimEnd s = rev (dropWhile isWhiteSpace (rev s))"

definition trim :: "jsString \<Rightarrow> jsString" where
  "trim s = trimEnd (trimStart s)"

definition startsWith :: "jsString \<Rightarrow> jsString \<Rightarrow> bool" where
  "startsWith s p \<longleftrightarrow> take (length p) s = p"

text \<open>\<^verbatim>\<open>s.includes(p)\<close>.\<close>

fun includes_js :: "jsString \<Rightarrow> jsString \<Rightarrow> bool" where
  "includes_js [] p = (p = [])"
| "includes_js (c # s) p = (startsWith (c # s) p \<or> includes_js s p)"

text \<open>\<^verbatim>\<open>s.split(sep)\<close> for a separator of one code unit: \<open>n\<close> separators give \<open>n + 1\<close> pieces.\<close>

fun split_js :: "int \<Rightarrow> jsString \<Rightarrow> jsString list" where
  "split_js sep [] = [[]]"
| "split_js sep (c # s) =
     (if c = sep then [] # split_js sep s
      else (case split_js sep s of [] \<Rightarrow> [[c]] | w # ws \<Rightarrow> (c # w) # ws))"

text \<open>\<^verbatim>\<open>ws.join(' ')\<close>.\<close>

fun join_js :: "jsString \<Rightarrow> jsString list \<Rightarrow> jsString" where
  "join_js sep [] = []"
| "join_js sep [w] = w"
| "join_js sep (w # ws) = w @ sep @ join_js sep ws"

text \<open>The regular expressions of the sources, as far as \<^verbatim>\<open>test\<close> needs them: a class of code
  units, sequence, alternative, \<^verbatim>\<open>+\<close>, \<^verbatim>\<open>?\<close>, the word boundary \<^verbatim>\<open>\b\<close> and the end \<^verbatim>\<open>$\<close>
  (without the flag \<^verbatim>\<open>m\<close>). \<open>ends r s i\<close> lists the positions at which a match of \<open>r\<close> that
  starts at position \<open>i\<close> of \<open>s\<close> can end; \<^verbatim>\<open>test\<close> asks whether some start has an end, so the
  order in which a backtracking matcher tries them does not matter.\<close>

datatype rx =
    Cls "int \<Rightarrow> bool"
  | Seq rx rx
  | Alt rx rx
  | Plus rx
  | Opt rx
  | WordBoundary
  | EndOfInput

text \<open>One or more rounds of \<open>f\<close>; \<open>k\<close> bounds the number of rounds, and a match never needs
  more rounds than the string has positions.\<close>

fun rounds_of :: "(nat \<Rightarrow> nat list) \<Rightarrow> nat \<Rightarrow> nat \<Rightarrow> nat list" where
  "rounds_of f 0 i = []"
| "rounds_of f (Suc k) i = (let js = remdups (f i) in js @ concat (map (rounds_of f k) js))"

definition wordAt :: "jsString \<Rightarrow> nat \<Rightarrow> bool" where
  "wordAt s i \<longleftrightarrow> i < length s \<and> isWordChar (s ! i)"

fun ends :: "rx \<Rightarrow> jsString \<Rightarrow> nat \<Rightarrow> nat list" where
  "ends (Cls p) s i = (if i < length s \<and> p (s ! i) then [i + 1] else [])"
| "ends (Seq a b) s i = remdups (concat (map (ends b s) (ends a s i)))"
| "ends (Alt a b) s i = remdups (ends a s i @ ends b s i)"
| "ends (Plus a) s i = remdups (rounds_of (ends a s) (length s + 1) i)"
| "ends (Opt a) s i = remdups (i # ends a s i)"
| "ends WordBoundary s i =
     (if (0 < i \<and> wordAt s (i - 1)) \<noteq> wordAt s i then [i] else [])"
| "ends EndOfInput s i = (if i = length s then [i] else [])"

definition test :: "rx \<Rightarrow> jsString \<Rightarrow> bool" where
  "test r s = list_ex (\<lambda>i. ends r s i \<noteq> []) [0..<length s + 1]"

text \<open>Pattern text: \<open>lit\<close> matches the code units as they are, \<open>lit_i\<close> under the flag \<^verbatim>\<open>i\<close>.
  Both are for a non-empty text.\<close>

fun seq_of :: "rx list \<Rightarrow> rx" where
  "seq_of [] = Opt EndOfInput"
| "seq_of [r] = r"
| "seq_of (r # rs) = Seq r (seq_of rs)"

definition lit :: "string \<Rightarrow> rx" where
  "lit p = seq_of (map (\<lambda>c. Cls (\<lambda>x. x = of_char c)) p)"

definition lit_i :: "string \<Rightarrow> rx" where
  "lit_i p = seq_of (map (\<lambda>c. Cls (\<lambda>x. asciiUpper x = asciiUpper (of_char c))) p)"

text \<open>\<^verbatim>\<open>/(https?:\/\/|www\.)/i\<close>, used by both validators.\<close>

definition rx_url :: rx where
  "rx_url = Alt (seq_of [lit_i ''http'', Opt (lit_i ''s''), lit ''://'']) (seq_of [lit_i ''www'', lit ''.''])"

definition hasUrlLike :: "jsString \<Rightarrow> bool" where
  "hasUrlLike text = test rx_url text"

section \<open>Configuration and marketing policy\<close>

text \<open>The fields of \<^verbatim>\<open>config\<close> that the modelled code reads. The numbers are finite integers
  (\<^verbatim>\<open>assertFiniteInt\<close> raises on a non-finite one and truncates a fractional one); a key is
  set when its string is not empty.\<close>

record config =
  nearAiApiKey :: jsString
  publishLoreToNearSocial :: bool
  publishLoreToX :: bool
  marketingEnabled :: bool
  marketingTime :: jsString
  marketingTimezone :: jsString
  marketingWindowMinutes :: int
  marketingJitterMinutes :: int

record timeParts =
  hour :: int
  minute :: int

fun digitsValue :: "int \<Rightarrow> jsString \<Rightarrow> int" where
  "digitsValue acc [] = acc"
| "digitsValue acc (c # s) = digitsValue (10 * acc + (c - 48)) s"

text \<open>\<^verbatim>\<open>parseHHMM\<close>: the trimmed text must match \<^verbatim>\<open>/^(\d{1,2}):(\d{2})$/\<close> and name an hour up to
  23 and a minute up to 59.\<close>

definition parseHHMM :: "jsString \<Rightarrow> error + timeParts" where
  "parseHHMM s =
     (let t = trim s; h = takeWhile isDigit t; rest = dropWhile isDigit t
      in if (length h = 1 \<or> length h = 2) \<and> length rest = 3 \<and> hd rest = 58 \<and>
            list_all isDigit (tl rest)
         then
           let hr = digitsValue 0 h; mi = digitsValue 0 (tl rest)
           in if hr < 0 \<or> hr > 23 \<or> mi < 0 \<or> mi > 59
              then Inl (Error ''Invalid time value'')
              else Inr \<lparr>hour = hr, minute = mi\<rparr>
         else Inl (Error ''Invalid time format (expected HH:MM)''))"

definition toMinutesSinceMidnight :: "timeParts \<Rightarrow> int" where
  "toMinutesSinceMidnight t = hour t * 60 + minute t"

text \<open>JavaScript's \<^verbatim>\<open>%\<close> on integers, for a positive divisor: the result has the sign of the
  dividend.\<close>

definition js_rem :: "int \<Rightarrow> int \<Rightarrow> int" where
  "js_rem a b = (if 0 \<le> a then a mod b else - ((- a) mod b))"

definition isInCircularRange :: "int \<Rightarrow> int \<Rightarrow> int \<Rightarrow> bool" where
  "isInCircularRange m start end' =
     (if start \<le> end' then m \<ge> start \<and> m \<le> end' else m \<ge> start \<or> m \<le> end')"

record marketingPolicy =
  enabled :: bool
  timezone :: jsString
  baseMinutes :: int
  windowMinutes :: int
  windowStartMinutes :: int
  windowEndMinutes :: int
  jitterMinutes :: int

definition getMarketingPolicy :: "config \<Rightarrow> error + marketingPolicy" where
  "getMarketingPolicy cfg =
     (case parseHHMM (marketingTime cfg) of
        Inl e \<Rightarrow> Inl e
      | Inr tp \<Rightarrow>
          let base = toMinutesSinceMidnight tp;
              wm = max 0 (marketingWindowMinutes cfg);
              jm = max 0 (marketingJitterMinutes cfg);
              half = wm div 2
          in Inr \<lparr>enabled = marketingEnabled cfg, timezone = marketingTimezone cfg,
                  baseMinutes = base, windowMinutes = wm,
                  windowStartMinutes = js_rem (base - half + 1440) 1440,
                  windowEndMinutes = js_rem (base + half) 1440,
                  jitterMinutes = jm\<rparr>)"

text \<open>\<^verbatim>\<open>isInMarketingWindowAt(date)\<close>. The local minute of the day comes from
  \<^verbatim>\<open>Intl.DateTimeFormat\<close>, outside the repository: \<open>localMinutes\<close> is what
  \<^verbatim>\<open>getLocalMinutesSinceMidnight(date, timezone)\<close> returns or raises.\<close>

definition isInMarketingWindowAt :: "config \<Rightarrow> error + int \<Rightarrow> error + bool" where
  "isInMarketingWindowAt cfg localMinutes =
     (case getMarketingPolicy cfg of
        Inl e \<Rightarrow> Inl e
      | Inr p \<Rightarrow>
          (case localMinutes of
             Inl e \<Rightarrow> Inl e
           | Inr nowMin \<Rightarrow>
               Inr (isInCircularRange nowMin (windowStartMinutes p) (windowEndMinutes p))))"

section \<open>Marketing poster: text checks\<close>

text \<open>Two tables of the JavaScript runtime are parameters: \<^verbatim>\<open>String.prototype.toLowerCase\<close>
  and the code units that \<^verbatim>\<open>\p{L}\<close> or \<^verbatim>\<open>\p{N}\<close> match (for text of the Basic Multilingual
  Plane, where a code unit is a code point).\<close>

record unicode =
  toLowerCase :: "jsString \<Rightarrow> jsString"
  isLetterOrNumber :: "int \<Rightarrow> bool"

text \<open>The tables on ASCII text; every other code unit counts as a symbol without case.\<close>

definition asciiTables :: unicode where
  "asciiTables =
     \<lparr>toLowerCase = map asciiLower,
      isLetterOrNumber = (\<lambda>c. isUpperAZ c \<or> isLowerAZ c \<or> isDigit c)\<rparr>"

text \<open>\<^verbatim>\<open>s.replace(/p+/g, rep)\<close> for a class \<open>p\<close>: every maximal run of \<open>p\<close> becomes \<open>rep\<close>.\<close>

function replaceRuns :: "(int \<Rightarrow> bool) \<Rightarrow> jsString \<Rightarrow> jsString \<Rightarrow> jsString" where
  "replaceRuns p rep [] = []"
| "replaceRuns p rep (c # s) =
     (if p c then rep @ replaceRuns p rep (dropWhile p s) else c # replaceRuns p rep s)"
  by pat_completeness auto
termination
  by (relation "measure (\<lambda>(p, rep, s). length s)")
     (auto simp: length_dropWhile_le le_imp_less_Suc)

text \<open>\<^verbatim>\<open>s.match(/p+/g)\<close> for a class \<open>p\<close>: the maximal runs of \<open>p\<close>, from the left.\<close>

function runsOf :: "(int \<Rightarrow> bool) \<Rightarrow> jsString \<Rightarrow> jsString list" where
  "runsOf p [] = []"
| "runsOf p (c # s) =
     (if p c then (c # takeWhile p s) # runsOf p (dropWhile p s) else runsOf p s)"
  by pat_completeness auto
termination
  by (relation "measure (\<lambda>(p, s). length s)")
     (auto simp: length_dropWhile_le le_imp_less_Suc)

text \<open>\<^verbatim>\<open>s.replace(/prefix\S+/g, '')\<close> for the prefixes \<open>ps\<close>, which are free of white space:
  where a prefix is followed by a code unit that is not white space, the match runs to the
  end of the run of such code units and is deleted.\<close>

definition notSpace :: "int \<Rightarrow> bool" where
  "notSpace c \<longleftrightarrow> \<not> isWhiteSpace c"

function removePrefixed :: "jsString list \<Rightarrow> jsString \<Rightarrow> jsString" where
  "removePrefixed ps [] = []"
| "removePrefixed ps (c # s) =
     (if list_ex (\<lambda>p. startsWith (c # s) p \<and> length p < length (c # s) \<and>
                       notSpace ((c # s) ! length p)) ps
      then removePrefixed ps (dropWhile notSpace s)
      else c # removePrefixed ps s)"
  by pat_completeness auto
termination
  by (relation "measure (\<lambda>(ps, s). length s)")
     (auto simp: length_dropWhile_le le_imp_less_Suc)

definition normalizeText :: "unicode \<Rightarrow> jsString \<Rightarrow> jsString" where
  "normalizeText U s =
     trim
       (replaceRuns isWhiteSpace (js '' '')
          (replaceRuns (\<lambda>c. \<not> isLetterOrNumber U c \<and> \<not> isWhiteSpace c) (js '' '')
             (removePrefixed [js ''www.'']
                (removePrefixed [js ''https://'', js ''http://''] (toLowerCase U s)))))"

definition firstWords :: "unicode \<Rightarrow> jsString \<Rightarrow> nat \<Rightarrow> jsString" where
  "firstWords U s n =
     join_js (js '' '') (take n (filter (\<lambda>w. w \<noteq> []) (split_js 32 (normalizeText U s))))"

definition firstLongWords :: "unicode \<Rightarrow> jsString \<Rightarrow> nat \<Rightarrow> jsString" where
  "firstLongWords U s n =
     join_js (js '' '')
       (take n (filter (\<lambda>w. length w \<ge> 4)
                  (filter (\<lambda>w. w \<noteq> []) (split_js 32 (normalizeText U s)))))"

text \<open>\<^verbatim>\<open>tokenSet(s, stop)\<close>: a \<^verbatim>\<open>Set\<close> keeps the first occurrence of each word, in insertion
  order; \<open>stop\<close> is \<open>None\<close> when the argument is left out.\<close>

definition tokenSet :: "unicode \<Rightarrow> jsString \<Rightarrow> jsString list option \<Rightarrow> jsString list" where
  "tokenSet U s stop =
     fold (\<lambda>w out.
             let ww = toLowerCase U w
             in if length ww < 4 then out
                else if (case stop of None \<Rightarrow> False | Some st \<Rightarrow> ww \<in> set st) then out
                else if ww \<in> set out then out
                else out @ [ww])
          (runsOf (isLetterOrNumber U) (normalizeText U s)) []"

text \<open>\<^verbatim>\<open>jaccard(a, b)\<close> on sets without repetitions. The quotient of the two counts is an exact
  rational here; the program rounds it to a double and compares it with the double nearest
  to 0.62, which gives the same verdict for every pair of sets a text can produce.\<close>

definition jaccard :: "jsString list \<Rightarrow> jsString list \<Rightarrow> rat" where
  "jaccard a b =
     (if a = [] \<and> b = [] then 1
      else if a = [] \<or> b = [] then 0
      else
        let inter = int (length (filter (\<lambda>x. x \<in> set b) a));
            uni = int (length a) + int (length b) - inter
        in if uni \<le> 0 then 0 else of_int inter / of_int uni)"

text \<open>The reasons of a rejection; \<open>None\<close> stands for \<^verbatim>\<open>{ ok: true }\<close>.\<close>

datatype reject =
    Empty
  | Contains_url
  | Contains_contract_identifier
  | Line_count nat
  | Bad_separator_lines
  | Invalid_hashtag
  | Hashtag_not_at_end
  | Explicit_check_profile
  | Explicit_visit_profile
  | Missing_dark_forest_anchor
  | Same_first_word jsString
  | Same_first_two_words jsString
  | Same_first_four_words jsString
  | Jaccard rat
  | Catchphrase_spitting_verses

text \<open>The first loop of \<^verbatim>\<open>isTooSimilarToRecent\<close>.\<close>

fun ngramGuard :: "unicode \<Rightarrow> jsString \<Rightarrow> jsString \<Rightarrow> jsString \<Rightarrow> jsString list \<Rightarrow> reject option" where
  "ngramGuard U c1 c2 c4 [] = None"
| "ngramGuard U c1 c2 c4 (r # rs) =
     (let r1 = firstLongWords U r 1; r2 = firstLongWords U r 2; r4 = firstLongWords U r 4
      in if c1 \<noteq> [] \<and> r1 \<noteq> [] \<and> c1 = r1 then Some (Same_first_word c1)
         else if c2 \<noteq> [] \<and> r2 \<noteq> [] \<and> c2 = r2 then Some (Same_first_two_words c2)
         else if c4 \<noteq> [] \<and> r4 \<noteq> [] \<and> c4 = r4 then Some (Same_first_four_words c4)
         else ngramGuard U c1 c2 c4 rs)"

text \<open>The second loop.\<close>

fun jaccardGuard :: "unicode \<Rightarrow> jsString list \<Rightarrow> jsString list option \<Rightarrow> jsString list \<Rightarrow> reject option" where
  "jaccardGuard U cSet stop [] = None"
| "jaccardGuard U cSet stop (r # rs) =
     (let sim = jaccard cSet (tokenSet U r stop)
      in if sim \<ge> 62 / 100 then Some (Jaccard sim) else jaccardGuard U cSet stop rs)"

definition rx_spitting_verses :: rx where
  "rx_spitting_verses = seq_of [lit_i ''spitting'', Plus (Cls isWhiteSpace), lit_i ''verses'']"

definition isTooSimilarToRecent ::
    "unicode \<Rightarrow> jsString \<Rightarrow> jsString list \<Rightarrow> jsString list option \<Rightarrow> reject option" where
  "isTooSimilarToRecent U candidate recent stop =
     (let c = trim candidate
      in if c = [] then Some Empty
         else
           let c1 = firstLongWords U c 1; c2 = firstLongWords U c 2; c4 = firstLongWords U c 4;
               cSet = tokenSet U c stop
           in case ngramGuard U c1 c2 c4 recent of
                Some r \<Rightarrow> Some r
              | None \<Rightarrow>
                  (case jaccardGuard U cSet stop recent of
                     Some r \<Rightarrow> Some r
                   | None \<Rightarrow>
                       if test rx_spitting_verses c then Some Catchphrase_spitting_verses
                       else None))"

text \<open>The helpers of \<^verbatim>\<open>validateMarketingText\<close>.\<close>

definition isIdChar :: "int \<Rightarrow> bool" where
  "isIdChar c \<longleftrightarrow> isLowerAZ c \<or> isUpperAZ c \<or> isDigit c \<or> c = 95 \<or> c = 45"

definition containsContractLikeIdentifier :: "jsString \<Rightarrow> bool" where
  "containsContractLikeIdentifier t \<longleftrightarrow>
     test (seq_of [WordBoundary, Plus (Cls isIdChar), lit ''.'',
                   Alt (lit_i ''near'') (lit_i ''testnet''), WordBoundary]) t \<or>
     test (seq_of [WordBoundary, lit_i ''blackjack-v'', Plus (Cls isDigit), WordBoundary]) t \<or>
     test (seq_of [WordBoundary, lit_i ''ft'', lit ''.'', Plus (Cls isIdChar), WordBoundary]) t"

definition rx_anchor :: rx where
  "rx_anchor =
     seq_of [WordBoundary,
             Alt (seq_of [lit_i ''dark'', Plus (Cls isWhiteSpace), lit_i ''forest''])
            (Alt (lit_i ''forest'')
            (Alt (lit_i ''oracle'')
            (Alt (lit_i ''chronicle'')
            (Alt (lit_i ''lore'')
            (Alt (lit_i ''canopy'')
            (Alt (lit_i ''embers'') (lit_i ''moss''))))))),
             WordBoundary]"

definition hasDarkForestVibeAnchor :: "unicode \<Rightarrow> jsString \<Rightarrow> bool" where
  "hasDarkForestVibeAnchor U text = test rx_anchor (normalizeText U text)"

text \<open>\<^verbatim>\<open>t.match(/#[A-Za-z0-9_]+/g)\<close>: the hashtags, from the left.\<close>

function hashtags :: "jsString \<Rightarrow> jsString list" where
  "hashtags [] = []"
| "hashtags (c # s) =
     (if c = 35 \<and> takeWhile isWordChar s \<noteq> []
      then (c # takeWhile isWordChar s) # hashtags (dropWhile isWordChar s)
      else hashtags s)"
  by pat_completeness auto
termination
  by (relation "measure length") (auto simp: length_dropWhile_le le_imp_less_Suc)

definition hasOnlyNearcon26Hashtag :: "jsString \<Rightarrow> bool" where
  "hasOnlyNearcon26Hashtag text =
     (let tags = hashtags text
      in if length tags = 0 then True else length tags = 1 \<and> hd tags = js ''#NEARCON26'')"

text \<open>\<^verbatim>\<open>replace(/\r\n/g, '\n')\<close>.\<close>

fun crlfToLf :: "jsString \<Rightarrow> jsString" where
  "crlfToLf (c # d # s) = (if c = 13 \<and> d = 10 then 10 # crlfToLf s else c # crlfToLf (d # s))"
| "crlfToLf [c] = [c]"
| "crlfToLf [] = []"

definition lines :: "jsString \<Rightarrow> jsString list" where
  "lines text = filter (\<lambda>l. l \<noteq> []) (map trim (split_js 10 (crlfToLf text)))"

text \<open>The separator is the code unit U+2726 followed by a space.\<close>

definition allLinesStartWithSeparator :: "jsString \<Rightarrow> bool" where
  "allLinesStartWithSeparator text =
     (let ls = lines text
      in if length ls = 0 then False else list_all (\<lambda>l. startsWith l [10022, 32]) ls)"

definition validateMarketingText :: "unicode \<Rightarrow> jsString \<Rightarrow> reject option" where
  "validateMarketingText U text =
     (let t = trim text
      in if t = [] then Some Empty
         else if test rx_url t then Some Contains_url
         else if containsContractLikeIdentifier t then Some Contains_contract_identifier
         else if length (lines t) < 1 \<or> length (lines t) > 2
           then Some (Line_count (length (lines t)))
         else if \<not> allLinesStartWithSeparator t then Some Bad_separator_lines
         else if \<not> hasOnlyNearcon26Hashtag t then Some Invalid_hashtag
         else if test (seq_of [lit ''#NEARCON26'', WordBoundary]) t \<and>
                 \<not> test (seq_of [lit ''#NEARCON26'', EndOfInput]) t
           then Some Hashtag_not_at_end
         else if test (seq_of [lit_i ''check'', Plus (Cls isWhiteSpace),
                               Alt (lit_i ''this'') (lit_i ''the''),
                               Plus (Cls isWhiteSpace), lit_i ''profile'']) t
           then Some Explicit_check_profile
         else if test (seq_of [lit_i ''visit'', Plus (Cls isWhiteSpace),
                               Alt (lit_i ''this'') (lit_i ''our''),
                               Plus (Cls isWhiteSpace), lit_i ''profile'']) t
           then Some Explicit_visit_profile
         else if \<not> hasDarkForestVibeAnchor U t then Some Missing_dark_forest_anchor
         else None)"

section \<open>Marketing poster: generation and publication\<close>

record xPostResult =
  tweetId :: "jsString option"
  url :: "jsString option"

record marketingMemory =
  lastPostedYmd :: "jsString option"
  lastPostedAt :: "int option"
  lastTweetId :: "jsString option"
  lastUrl :: "jsString option"
  recentTexts :: "jsString list"
  recentThemeIds :: "jsString list"

text \<open>The fields of the class that \<^verbatim>\<open>generateAndPost\<close> touches, and \<open>posted\<close>: the texts
  handed to \<^verbatim>\<open>postTweet\<close> so far, the effect of the class on the short-form channel.\<close>

record marketingPoster =
  inFlight :: bool
  mp_lastError :: "error option"
  stateCache :: marketingMemory
  posted :: "jsString list"

text \<open>What the poster gets from outside during one call: the local date, the theme taken
  from the shuffled bag, the draft of an attempt, the answer of the publisher and the clock.
  \<open>draftText attempt hint\<close> is the text of line 560 of the source,
  \<^verbatim>\<open>normalizeMarketingText(stripCodeFences(raw))\<close> for the completion of that attempt (the
  prompt carries the attempt number and the rejection hint), or the error the call raises.\<close>

record marketingEnv =
  localYmd :: "error + jsString"
  nextThemeForPost :: "error + jsString"
  draftText :: "nat \<Rightarrow> reject option \<Rightarrow> error + jsString"
  postTweet :: "jsString \<Rightarrow> error + xPostResult"
  dateNow :: int

text \<open>The loop \<^verbatim>\<open>for (attempt = 1; attempt <= maxAttempts; attempt++)\<close> with \<open>k\<close> attempts
  left: a draft that passes the validator is returned, a rejected one becomes \<open>lastText\<close> and
  its reason the next hint; after the loop \<open>lastText\<close> is returned.\<close>

fun marketingAttempts ::
    "unicode \<Rightarrow> marketingEnv \<Rightarrow> nat \<Rightarrow> nat \<Rightarrow> jsString \<Rightarrow> reject option \<Rightarrow> error + jsString" where
  "marketingAttempts U env attempt 0 lastText hint = Inr lastText"
| "marketingAttempts U env attempt (Suc k) lastText hint =
     (case draftText env attempt hint of
        Inl e \<Rightarrow> Inl e
      | Inr text \<Rightarrow>
          (case validateMarketingText U text of
             None \<Rightarrow> Inr text
           | Some reason \<Rightarrow> marketingAttempts U env (attempt + 1) k text (Some reason)))"

definition generateMarketingTextWithRetries ::
    "unicode \<Rightarrow> config \<Rightarrow> marketingEnv \<Rightarrow> error + jsString \<times> jsString" where
  "generateMarketingTextWithRetries U cfg env =
     (case getMarketingPolicy cfg of
        Inl e \<Rightarrow> Inl e
      | Inr p \<Rightarrow>
          (case localYmd env of
             Inl e \<Rightarrow> Inl e
           | Inr todayYmd \<Rightarrow>
               (case nextThemeForPost env of
                  Inl e \<Rightarrow> Inl e
                | Inr theme \<Rightarrow>
                    (case marketingAttempts U env 1 2 [] None of
                       Inl e \<Rightarrow> Inl e
                     | Inr text \<Rightarrow> Inr (text, theme)))))"

definition enforceHardCap :: "jsString \<Rightarrow> jsString" where
  "enforceHardCap text = (let t = trim text in if length t \<le> 25000 then t else take 25000 t)"

text \<open>The \<^verbatim>\<open>try\<close> block of \<^verbatim>\<open>generateAndPost\<close>; the permit is asked for without a timeout, so
  the wait for it cannot raise.\<close>

definition postGenerated ::
    "unicode \<Rightarrow> config \<Rightarrow> marketingEnv \<Rightarrow> jsString \<Rightarrow> marketingPoster
     \<Rightarrow> (error + xPostResult) \<times> marketingPoster" where
  "postGenerated U cfg env ymd mp =
     (case generateMarketingTextWithRetries U cfg env of
        Inl e \<Rightarrow> (Inl e, mp)
      | Inr (draft, themeId) \<Rightarrow>
          let text = enforceHardCap draft
          in if trim text = [] then (Inl (Error ''marketing_empty_text''), mp)
             else
               let mp1 = mp\<lparr>posted := posted mp @ [text]\<rparr>
               in case postTweet env text of
                    Inl e \<Rightarrow> (Inl e, mp1)
                  | Inr res \<Rightarrow>
                      let prev = filter (\<lambda>t. t \<noteq> []) (recentTexts (stateCache mp1));
                          themePrev = filter (\<lambda>t. t \<noteq> []) (recentThemeIds (stateCache mp1))
                      in (Inr res,
                          mp1\<lparr>stateCache :=
                                \<lparr>lastPostedYmd = Some ymd, lastPostedAt = Some (dateNow env),
                                 lastTweetId = tweetId res, lastUrl = url res,
                                 recentTexts = take 10 (text # prev),
                                 recentThemeIds = take 10 (themeId # themePrev)\<rparr>\<rparr>))"

definition generateAndPost ::
    "unicode \<Rightarrow> config \<Rightarrow> marketingEnv \<Rightarrow> bool \<Rightarrow> marketingPoster
     \<Rightarrow> (error + xPostResult) \<times> marketingPoster" where
  "generateAndPost U cfg env force mp =
     (case getMarketingPolicy cfg of
        Inl e \<Rightarrow> (Inl e, mp)
      | Inr p \<Rightarrow>
          if \<not> enabled p then (Inr \<lparr>tweetId = None, url = None\<rparr>, mp)
          else
            (case localYmd env of
               Inl e \<Rightarrow> (Inl e, mp)
             | Inr ymd \<Rightarrow>
                 if \<not> force \<and> lastPostedYmd (stateCache mp) = Some ymd
                 then (Inr \<lparr>tweetId = None, url = None\<rparr>, mp)
                 else if inFlight mp then (Inr \<lparr>tweetId = None, url = None\<rparr>, mp)
                 else
                   (case postGenerated U cfg env ymd (mp\<lparr>inFlight := True, mp_lastError := None\<rparr>) of
                      (Inl err, mp1) \<Rightarrow> (Inl err, mp1\<lparr>mp_lastError := Some err, inFlight := False\<rparr>)
                    | (Inr res, mp1) \<Rightarrow> (Inr res, mp1\<lparr>inFlight := False\<rparr>))))"

text \<open>A draft and an earlier post that open with the same two long words, a configuration
  with the scheduler switched on, and a generator that answers with the draft. The draft is
  what line 560 makes of a completion with this very text: it has no code fence, no
  hashtag, no line break and no blank at either end, so \<^verbatim>\<open>stripCodeFences\<close> and
  \<^verbatim>\<open>normalizeMarketingText\<close> return it as it is.\<close>

definition exampleDraft :: jsString where
  "exampleDraft = [10022, 32] @ js ''Forest oracle whispers tonight.''"

definition exampleRecent :: jsString where
  "exampleRecent = [10022, 32] @ js ''Forest oracle hums again.''"

definition exampleConfig :: config where
  "exampleConfig =
     \<lparr>nearAiApiKey = js ''key'', publishLoreToNearSocial = True, publishLoreToX = True,
      marketingEnabled = True, marketingTime = js ''20:00'',
      marketingTimezone = js ''Europe/Warsaw'', marketingWindowMinutes = 60,
      marketingJitterMinutes = 15\<rparr>"

definition exampleEnv :: marketingEnv where
  "exampleEnv =
     \<lparr>localYmd = Inr (js ''2026-02-02''), nextThemeForPost = Inr (js ''theme-nearcon26''),
      draftText = (\<lambda>attempt hint. Inr exampleDraft),
      postTweet = (\<lambda>text. Inr \<lparr>tweetId = Some (js ''1''), url = None\<rparr>),
      dateNow = 1770000000000\<rparr>"

definition examplePoster :: marketingPoster where
  "examplePoster =
     \<lparr>inFlight = False, mp_lastError = None,
      stateCache = \<lparr>lastPostedYmd = Some (js ''2026-02-01''), lastPostedAt = None,
                    lastTweetId = None, lastUrl = None, recentTexts = [exampleRecent],
                    recentThemeIds = [js ''theme-wars-of-cards-world'']\<rparr>,
      posted = []\<rparr>"

text \<open>A generator that answers with the draft at the first attempt and raises at any other.\<close>

definition exampleEnvOnce :: marketingEnv where
  "exampleEnvOnce =
     exampleEnv\<lparr>draftText := (\<lambda>attempt hint. if attempt = 1 then Inr exampleDraft
                                             else Inl (Error ''no second attempt''))\<rparr>"

text \<open>A runaway generation: the separator and 30000 times the letter a, at every attempt.\<close>

definition exampleLongDraft :: jsString where
  "exampleLongDraft = [10022, 32] @ replicate 30000 97"

definition exampleEnvLong :: marketingEnv where
  "exampleEnvLong = exampleEnv\<lparr>draftText := (\<lambda>attempt hint. Inr exampleLongDraft)\<rparr>"
section \<open>Short notification: the acceptance predicate\<close>

definition containsAllAccountIds :: "jsString \<Rightarrow> jsString list \<Rightarrow> bool" where
  "containsAllAccountIds text accountIds =
     (if length accountIds = 0 then True
      else list_all (\<lambda>id. id \<noteq> [] \<and> includes_js text id) accountIds)"

text \<open>\<^verbatim>\<open>/#\w+/\<close>.\<close>

definition rx_hashtag :: rx where
  "rx_hashtag = Seq (lit ''#'') (Plus (Cls isWordChar))"

definition isValidXNotificationText :: "jsString \<Rightarrow> jsString list \<Rightarrow> bool" where
  "isValidXNotificationText text accountIds =
     (if text = [] then False
      else if length text > 260 then False
      else if hasUrlLike text then False
      else if test rx_hashtag text then False
      else if \<not> containsAllAccountIds text accountIds then False
      else True)"

section \<open>Continuity store: class PublishedLoreStore\<close>

record publishedLoreEntry =
  entry_createdAt :: int
  entry_batchId :: batchId
  entry_rootKey :: "jsString option"
  entry_txHash :: "jsString option"
  entry_text :: jsString

text \<open>The store is a ring buffer of entries; the program's only instance has capacity 10.\<close>

definition newPublishedLoreStore :: "int \<Rightarrow> error + publishedLoreEntry ringBuffer" where
  "newPublishedLoreStore cap = newRingBuffer cap"

definition publishedLoreStore0 :: "error + publishedLoreEntry ringBuffer" where
  "publishedLoreStore0 = newPublishedLoreStore 10"

definition store_push :: "publishedLoreEntry \<Rightarrow> publishedLoreEntry ringBuffer \<Rightarrow> publishedLoreEntry ringBuffer" where
  "store_push entry st = snd (push entry st)"

definition listNewestFirst :: "publishedLoreEntry ringBuffer \<Rightarrow> publishedLoreEntry list" where
  "listNewestFirst st = rev (toArray st)"

section \<open>Generation worker: class LoreWorker\<close>

record lorePublishResult =
  rootKey :: jsString
  txHashes :: "jsString list"

record xLorePublishResult =
  x_tweetId :: "jsString option"
  x_url :: "jsString option"
  x_text :: "jsString option"

record loreWorkerState =
  busy :: bool
  lastTickAt :: "int option"
  lastBatchId :: "batchId option"
  lastPublishedNear :: "lorePublishResult option"
  lastPublishedX :: "xLorePublishResult option"
  lastError :: "error option"

text \<open>What a cycle does to the outside: the calls of the generation and publication
  collaborators, and the log lines the claims read.\<close>

datatype worker_event =
    Call_writeLore batchId
  | Call_writeXNotification batchId nat
  | Call_publishLoreThread batchId
  | Call_publishLoreToX batchId jsString
  | X_publish_skipped_marketing_window batchId string
  | Published_lore_stored batchId
  | Lore_worker_failed batchId error

text \<open>The worker's own state, the continuity store and the trace of effects.\<close>

record workerCore =
  wstate :: loreWorkerState
  store :: "publishedLoreEntry ringBuffer"
  wtrace :: "worker_event list"

text \<open>What one cycle gets from outside. \<^verbatim>\<open>buildLorePayload\<close> assembles the prompt payload, the
  image prompt and the account identifiers of the batch; a cycle only passes its three
  results on, so it is taken as given. The other fields are the answers (or errors) of the
  generation and publication calls, the clock and the local minute of the day.\<close>

record 'p cycleEnv =
  tickClock :: int
  buildLorePayload :: "'p loreBatch \<Rightarrow> publishedLoreEntry list \<Rightarrow> error + jsString \<times> jsString \<times> jsString list"
  writeLoreUnlocked :: "jsString \<Rightarrow> batchId \<Rightarrow> error + jsString"
  localMinutesNow :: "error + int"
  writeXNotificationFromLoreUnlocked :: "jsString \<Rightarrow> batchId \<Rightarrow> nat \<Rightarrow> jsString list \<Rightarrow> error + jsString"
  publishLoreThread :: "'p loreBatch \<Rightarrow> jsString list \<Rightarrow> error + lorePublishResult"
  storeClock :: int
  publishLoreToXWithText :: "jsString \<Rightarrow> batchId \<Rightarrow> jsString \<Rightarrow> jsString \<Rightarrow> error + xLorePublishResult"

text \<open>The loop \<^verbatim>\<open>for (attempt = 1; attempt <= 4; attempt++)\<close> of the secondary step, with \<open>k\<close>
  attempts left. The validator is called with the text alone, so its list of account
  identifiers is the default, the empty list. A raising attempt is remembered in
  \<open>lastErr\<close>; after the loop the cycle raises \<open>lastErr\<close> or the fixed error. The result comes
  with the calls made.\<close>

fun xNotificationAttempts ::
    "'p cycleEnv \<Rightarrow> jsString \<Rightarrow> batchId \<Rightarrow> jsString list \<Rightarrow> nat \<Rightarrow> nat \<Rightarrow> error option
     \<Rightarrow> (error + jsString) \<times> worker_event list" where
  "xNotificationAttempts env lore bid ids attempt 0 lastErr =
     (Inl (case lastErr of Some e \<Rightarrow> e
           | None \<Rightarrow> Error ''x_notification_failed_to_fit_constraints''), [])"
| "xNotificationAttempts env lore bid ids attempt (Suc k) lastErr =
     (case writeXNotificationFromLoreUnlocked env lore bid attempt ids of
        Inl e \<Rightarrow>
          (let (r, evs) = xNotificationAttempts env lore bid ids (attempt + 1) k (Some e)
           in (r, Call_writeXNotification bid attempt # evs))
      | Inr text \<Rightarrow>
          if \<not> isValidXNotificationText text []
          then (let (r, evs) = xNotificationAttempts env lore bid ids (attempt + 1) k lastErr
                in (r, Call_writeXNotification bid attempt # evs))
          else (Inr text, [Call_writeXNotification bid attempt]))"

text \<open>The body run under the permit \<^verbatim>\<open>lore_cycle\<close>: the chronicle, then the secondary text
  unless publication to the short-form channel is off or the marketing window applies. The
  permit is asked for without a timeout, so the wait for it cannot raise. The result is the
  chronicle with the optional secondary text, or the error raised, and the events.\<close>

definition loreCycle ::
    "config \<Rightarrow> 'p cycleEnv \<Rightarrow> batchId \<Rightarrow> jsString \<Rightarrow> jsString list
     \<Rightarrow> (error + jsString \<times> jsString option) \<times> worker_event list" where
  "loreCycle cfg env bid payload xAccountIds =
     (case writeLoreUnlocked env payload bid of
        Inl e \<Rightarrow> (Inl e, [Call_writeLore bid])
      | Inr lore \<Rightarrow>
          if \<not> publishLoreToX cfg then (Inr (lore, None), [Call_writeLore bid])
          else
            (case getMarketingPolicy cfg of
               Inl e \<Rightarrow> (Inl e, [Call_writeLore bid])
             | Inr marketing \<Rightarrow>
                 (case (if enabled marketing then isInMarketingWindowAt cfg (localMinutesNow env)
                        else Inr False) of
                    Inl e \<Rightarrow> (Inl e, [Call_writeLore bid])
                  | Inr True \<Rightarrow>
                      (Inr (lore, None),
                       [Call_writeLore bid,
                        X_publish_skipped_marketing_window bid ''marketing_window''])
                  | Inr False \<Rightarrow>
                      if nearAiApiKey cfg = []
                      then (Inl (Error ''NEAR_AI_KEY is not set''), [Call_writeLore bid])
                      else
                        (case xNotificationAttempts env lore bid xAccountIds 1 4 None of
                           (Inl e, evs) \<Rightarrow> (Inl e, Call_writeLore bid # evs)
                         | (Inr text, evs) \<Rightarrow>
                             (Inr (lore, Some text), Call_writeLore bid # evs)))))"

text \<open>Step 2 of the cycle: the optional publication of the chronicle, with the push to the
  continuity store, and the optional publication of the secondary text.\<close>

definition publishStep ::
    "config \<Rightarrow> 'p cycleEnv \<Rightarrow> 'p loreBatch \<Rightarrow> jsString \<Rightarrow> jsString option \<Rightarrow> jsString
     \<Rightarrow> workerCore \<Rightarrow> error option \<times> workerCore" where
  "publishStep cfg env batch lore xText imagePrompt w =
     (let bid = batch_id batch;
          near =
            (if publishLoreToNearSocial cfg then
               (case publishLoreThread env batch [lore] of
                  Inl e \<Rightarrow> (Some e, w\<lparr>wtrace := wtrace w @ [Call_publishLoreThread bid]\<rparr>)
                | Inr published \<Rightarrow>
                    (None,
                     w\<lparr>wstate := (wstate w)\<lparr>lastPublishedNear := Some published\<rparr>,
                       store := store_push
                                  \<lparr>entry_createdAt = storeClock env, entry_batchId = bid,
                                   entry_rootKey = Some (rootKey published),
                                   entry_txHash = (case txHashes published of [] \<Rightarrow> None
                                                   | h # _ \<Rightarrow> Some h),
                                   entry_text = lore\<rparr>
                                  (store w),
                       wtrace := wtrace w @ [Call_publishLoreThread bid,
                                             Published_lore_stored bid]\<rparr>))
             else (None, w))
      in case near of
           (Some e, w1) \<Rightarrow> (Some e, w1)
         | (None, w1) \<Rightarrow>
             (case xText of
                None \<Rightarrow> (None, w1)
              | Some text \<Rightarrow>
                  if publishLoreToX cfg \<and> text \<noteq> [] then
                    (case publishLoreToXWithText env lore bid text imagePrompt of
                       Inl e \<Rightarrow> (Some e, w1\<lparr>wtrace := wtrace w1 @ [Call_publishLoreToX bid text]\<rparr>)
                     | Inr publishedX \<Rightarrow>
                         (None,
                          w1\<lparr>wstate := (wstate w1)\<lparr>lastPublishedX := Some publishedX\<rparr>,
                             wtrace := wtrace w1 @ [Call_publishLoreToX bid text]\<rparr>))
                  else (None, w1)))"

text \<open>The \<^verbatim>\<open>try\<close> block of \<^verbatim>\<open>tick\<close> from its first \<^verbatim>\<open>await\<close> on: the cycle under the permit and
  step 2. \<open>Some err\<close> when a step raised.\<close>

definition cycleRest ::
    "config \<Rightarrow> 'p cycleEnv \<Rightarrow> 'p loreBatch \<Rightarrow> jsString \<Rightarrow> jsString \<Rightarrow> jsString list
     \<Rightarrow> workerCore \<Rightarrow> error option \<times> workerCore" where
  "cycleRest cfg env batch payload imagePrompt xAccountIds w =
     (case loreCycle cfg env (batch_id batch) payload xAccountIds of
        (Inl e, evs) \<Rightarrow> (Some e, w\<lparr>wtrace := wtrace w @ evs\<rparr>)
      | (Inr (lore, xText), evs) \<Rightarrow>
          publishStep cfg env batch lore xText imagePrompt (w\<lparr>wtrace := wtrace w @ evs\<rparr>))"

text \<open>The whole \<^verbatim>\<open>try\<close> block for one batch: the payload is built from the batch and the
  continuity store (no \<^verbatim>\<open>await\<close> up to here), then the rest runs.\<close>

definition cycle ::
    "config \<Rightarrow> 'p cycleEnv \<Rightarrow> 'p loreBatch \<Rightarrow> workerCore \<Rightarrow> error option \<times> workerCore" where
  "cycle cfg env batch w =
     (let memNewestFirst = take (maxSize (store w)) (listNewestFirst (store w));
          memOldestFirst = rev memNewestFirst
      in case buildLorePayload env batch memOldestFirst of
           Inl e \<Rightarrow> (Some e, w)
         | Inr (payload, imagePrompt, xAccountIds) \<Rightarrow>
             cycleRest cfg env batch payload imagePrompt xAccountIds w)"

text \<open>The assignments between the drain and the \<^verbatim>\<open>try\<close> block: Idle to Busy.\<close>

definition startCycle :: "'p loreBatch \<Rightarrow> workerCore \<Rightarrow> workerCore" where
  "startCycle batch w =
     w\<lparr>wstate := (wstate w)\<lparr>busy := True, lastBatchId := Some (batch_id batch),
                                lastError := None\<rparr>\<rparr>"

text \<open>The \<^verbatim>\<open>catch\<close> block, which records and logs the error, and \<^verbatim>\<open>busy = false\<close> of the
  \<^verbatim>\<open>finally\<close> block.\<close>

definition finishCycle :: "'p loreBatch \<Rightarrow> error option \<Rightarrow> workerCore \<Rightarrow> workerCore" where
  "finishCycle batch r w3 =
     (let w4 = (case r of
                  None \<Rightarrow> w3
                | Some err \<Rightarrow>
                    w3\<lparr>wstate := (wstate w3)\<lparr>lastError := Some err\<rparr>,
                       wtrace := wtrace w3 @ [Lore_worker_failed (batch_id batch) err]\<rparr>)
      in w4\<lparr>wstate := (wstate w4)\<lparr>busy := False\<rparr>\<rparr>)"

text \<open>One batch from Busy back to Idle, with nothing else in between: the cycle, the \<^verbatim>\<open>catch\<close>
  and \<^verbatim>\<open>busy = false\<close>.\<close>

definition processBatch :: "config \<Rightarrow> 'p cycleEnv \<Rightarrow> 'p loreBatch \<Rightarrow> workerCore \<Rightarrow> workerCore" where
  "processBatch cfg env batch w =
     (let (r, w3) = cycle cfg env batch (startCycle batch w) in finishCycle batch r w3)"

definition touch :: "int \<Rightarrow> workerCore \<Rightarrow> workerCore" where
  "touch now w = w\<lparr>wstate := (wstate w)\<lparr>lastTickAt := Some now\<rparr>\<rparr>"

text \<open>\<^verbatim>\<open>tick\<close> is an \<^verbatim>\<open>async\<close> function: a call runs it up to its first \<^verbatim>\<open>await\<close> and comes back
  with a promise; the rest runs later, from the event loop. The first \<^verbatim>\<open>await\<close> of \<^verbatim>\<open>tick\<close> is
  the one of the permit, after the payload is built. A cycle that waits there is kept with
  what it needs to go on: the number of its tick in the chain, its batch and the three
  results of \<^verbatim>\<open>buildLorePayload\<close>.\<close>

record 'p suspendedCycle =
  sc_tick :: nat
  sc_batch :: "'p loreBatch"
  sc_payload :: jsString
  sc_imagePrompt :: jsString
  sc_ids :: "jsString list"

text \<open>How far a call of \<^verbatim>\<open>tick\<close> gets before its first \<^verbatim>\<open>await\<close>: it returns without a cycle
  (worker busy, key unset, no pending batch), or \<^verbatim>\<open>buildLorePayload\<close> raises, or the cycle
  waits.\<close>

datatype 'p entered =
    NoCycle
  | BuildRaised "'p loreBatch" error
  | Awaits "'p suspendedCycle"

definition tickPrefix ::
    "config \<Rightarrow> 'p cycleEnv \<Rightarrow> nat \<Rightarrow> 'p loreBatcher \<times> workerCore
     \<Rightarrow> ('p loreBatcher \<times> workerCore) \<times> 'p entered" where
  "tickPrefix cfg env k bw =
     (let b = fst bw;
          w1 = touch (tickClock env) (snd bw)
      in if busy (wstate w1) then ((b, w1), NoCycle)
         else if nearAiApiKey cfg = [] then ((b, w1), NoCycle)
         else
           (case fst (drainPending 1 b) of
              [] \<Rightarrow> ((snd (drainPending 1 b), w1), NoCycle)
            | batch # _ \<Rightarrow>
                let b1 = snd (drainPending 1 b);
                    w2 = startCycle batch w1;
                    memNewestFirst = take (maxSize (store w2)) (listNewestFirst (store w2));
                    memOldestFirst = rev memNewestFirst
                in case buildLorePayload env batch memOldestFirst of
                     Inl e \<Rightarrow> ((b1, w2), BuildRaised batch e)
                   | Inr (payload, imagePrompt, xAccountIds) \<Rightarrow>
                       ((b1, w2),
                        Awaits \<lparr>sc_tick = k, sc_batch = batch, sc_payload = payload,
                                sc_imagePrompt = imagePrompt, sc_ids = xAccountIds\<rparr>)))"

lemma drain_one_shrinks:
  "fst (drain 1 rb) = x # xs \<Longrightarrow> size_rb (snd (drain 1 rb)) < size_rb rb"
  by (cases "size_rb rb")
     (auto simp: drain_def drain_loop_def Let_def split: prod.splits)

lemma drain_one_le: "size_rb (snd (drain 1 rb)) \<le> size_rb rb"
  by (auto simp: drain_def Let_def split: prod.splits)

lemma tickPrefix_size:
  assumes "tickPrefix cfg env k bw = ((b1, w2), r)"
  shows "size_rb (pendingBatches b1) \<le> size_rb (pendingBatches (fst bw))"
    and "r \<noteq> NoCycle \<Longrightarrow> size_rb (pendingBatches b1) < size_rb (pendingBatches (fst bw))"
proof -
  have le: "size_rb (pendingBatches (snd (drainPending 1 (fst bw))))
              \<le> size_rb (pendingBatches (fst bw))"
    using drain_one_le[of "pendingBatches (fst bw)"]
    by (cases "drain 1 (pendingBatches (fst bw))") (simp add: drainPending_def)
  have lt: "size_rb (pendingBatches (snd (drainPending 1 (fst bw))))
              < size_rb (pendingBatches (fst bw))"
    if "fst (drainPending 1 (fst bw)) = x # xs" for x xs
    using drain_one_shrinks[of "pendingBatches (fst bw)" x xs] that
    by (cases "drain 1 (pendingBatches (fst bw))") (simp add: drainPending_def)
  show "size_rb (pendingBatches b1) \<le> size_rb (pendingBatches (fst bw))"
    using assms le
    by (auto simp: tickPrefix_def Let_def split: if_splits list.splits sum.splits prod.splits)
  show "size_rb (pendingBatches b1) < size_rb (pendingBatches (fst bw))" if "r \<noteq> NoCycle"
    using assms that lt
    by (auto simp: tickPrefix_def Let_def split: if_splits list.splits sum.splits prod.splits)
qed

text \<open>A call of \<^verbatim>\<open>tick\<close> that is not awaited, \<^verbatim>\<open>void this.tick()\<close>: the state in which control
  comes back to the caller, and the cycle left waiting. \<open>envs k\<close> is the outside during the
  \<open>k\<close>-th tick of the chain. When \<^verbatim>\<open>buildLorePayload\<close> raises, the tick runs its \<^verbatim>\<open>catch\<close> and
  \<^verbatim>\<open>finally\<close> blocks at once, and the \<^verbatim>\<open>finally\<close> block, finding a pending batch, calls \<^verbatim>\<open>tick\<close>
  again in the same way.\<close>

function fireTick ::
    "config \<Rightarrow> (nat \<Rightarrow> 'p cycleEnv) \<Rightarrow> nat \<Rightarrow> 'p loreBatcher \<times> workerCore
     \<Rightarrow> ('p loreBatcher \<times> workerCore) \<times> 'p suspendedCycle option" where
  "fireTick cfg envs k bw =
     (case tickPrefix cfg (envs k) k bw of
        (st, NoCycle) \<Rightarrow> (st, None)
      | (st, Awaits s) \<Rightarrow> (st, Some s)
      | (st, BuildRaised batch e) \<Rightarrow>
          let w5 = finishCycle batch (Some e) (snd st)
          in if length_rb (pendingBatches (fst st)) > 0
             then fireTick cfg envs (k + 1) (fst st, w5)
             else ((fst st, w5), None))"
  by pat_completeness auto
termination
proof (relation "measure (\<lambda>(cfg, envs, k, bw). size_rb (pendingBatches (fst bw)))")
  show "wf (measure (\<lambda>(cfg, envs, k, bw). size_rb (pendingBatches (fst bw))))" by simp
next
  fix cfg :: config and envs :: "nat \<Rightarrow> 'p cycleEnv" and k :: nat
    and bw :: "'p loreBatcher \<times> workerCore" and st r batch e w5
  assume "(st, r) = tickPrefix cfg (envs k) k bw" and "r = BuildRaised batch e"
  then have "tickPrefix cfg (envs k) k bw = ((fst st, snd st), r)" "r \<noteq> NoCycle" by simp_all
  from tickPrefix_size(2)[OF this]
  show "((cfg, envs, k + 1, fst st, w5), cfg, envs, k, bw)
        \<in> measure (\<lambda>(cfg, envs, k, bw). size_rb (pendingBatches (fst bw)))"
    by simp
qed

text \<open>\<^verbatim>\<open>scheduleRun()\<close> is such a call.\<close>

definition scheduleRun ::
    "config \<Rightarrow> (nat \<Rightarrow> 'p cycleEnv) \<Rightarrow> 'p loreBatcher \<times> workerCore
     \<Rightarrow> ('p loreBatcher \<times> workerCore) \<times> 'p suspendedCycle option" where
  "scheduleRun cfg envs bw = fireTick cfg envs 0 bw"

text \<open>A waiting cycle goes on: the rest of the \<^verbatim>\<open>try\<close> block, \<^verbatim>\<open>catch\<close> and \<^verbatim>\<open>finally\<close>. The
  \<^verbatim>\<open>finally\<close> block calls \<^verbatim>\<open>tick\<close> again when a batch is pending, without awaiting it, and with
  that the promise of this tick is settled. Nothing else is taken to happen to the worker
  and the batcher while the cycle waits.\<close>

definition resumeTick ::
    "config \<Rightarrow> (nat \<Rightarrow> 'p cycleEnv) \<Rightarrow> 'p suspendedCycle \<Rightarrow> 'p loreBatcher \<times> workerCore
     \<Rightarrow> ('p loreBatcher \<times> workerCore) \<times> 'p suspendedCycle option" where
  "resumeTick cfg envs s bw =
     (let b = fst bw;
          (r, w3) = cycleRest cfg (envs (sc_tick s)) (sc_batch s) (sc_payload s)
                      (sc_imagePrompt s) (sc_ids s) (snd bw);
          w5 = finishCycle (sc_batch s) r w3
      in if length_rb (pendingBatches b) > 0
         then fireTick cfg envs (sc_tick s + 1) (b, w5)
         else ((b, w5), None))"

text \<open>An awaited call, \<^verbatim>\<open>await this.tick()\<close>: the state in which the promise of the tick is
  settled, and the cycle that the tick it has called in its \<^verbatim>\<open>finally\<close> block has left
  waiting.\<close>

definition tick ::
    "config \<Rightarrow> (nat \<Rightarrow> 'p cycleEnv) \<Rightarrow> nat \<Rightarrow> 'p loreBatcher \<times> workerCore
     \<Rightarrow> ('p loreBatcher \<times> workerCore) \<times> 'p suspendedCycle option" where
  "tick cfg envs k bw =
     (case tickPrefix cfg (envs k) k bw of
        (st, Awaits s) \<Rightarrow> resumeTick cfg envs s st
      | (st, r) \<Rightarrow> fireTick cfg envs k bw)"

text \<open>\<^verbatim>\<open>runOnce()\<close> awaits one tick.\<close>

definition runOnce ::
    "config \<Rightarrow> (nat \<Rightarrow> 'p cycleEnv) \<Rightarrow> 'p loreBatcher \<times> workerCore
     \<Rightarrow> ('p loreBatcher \<times> workerCore) \<times> 'p suspendedCycle option" where
  "runOnce cfg envs bw = tick cfg envs 0 bw"

lemma fireTick_size:
  "fireTick cfg envs k bw = ((b1, w1), so) \<Longrightarrow>
   size_rb (pendingBatches b1) \<le> size_rb (pendingBatches (fst bw)) \<and>
   (so \<noteq> None \<longrightarrow> size_rb (pendingBatches b1) < size_rb (pendingBatches (fst bw)))"
proof (induction cfg envs k bw arbitrary: b1 w1 so rule: fireTick.induct)
  case (1 cfg envs k bw)
  obtain b2 w2 r where p: "tickPrefix cfg (envs k) k bw = ((b2, w2), r)"
    by (metis surj_pair)
  note sz = tickPrefix_size[OF p]
  show ?case
  proof (cases r)
    case NoCycle
    then show ?thesis using "1.prems" p sz by (subst (asm) fireTick.simps) auto
  next
    case (Awaits s)
    then show ?thesis using "1.prems" p sz by (subst (asm) fireTick.simps) auto
  next
    case (BuildRaised batch e)
    show ?thesis
    proof (cases "length_rb (pendingBatches b2) > 0")
      case False
      then show ?thesis using "1.prems" p sz BuildRaised
        by (subst (asm) fireTick.simps) (auto simp: Let_def)
    next
      case True
      have f: "fireTick cfg envs (k + 1) (b2, finishCycle batch (Some e) w2) = ((b1, w1), so)"
        using "1.prems" p BuildRaised True by (subst (asm) fireTick.simps) (simp add: Let_def)
      have "size_rb (pendingBatches b1) \<le> size_rb (pendingBatches b2) \<and>
            (so \<noteq> None \<longrightarrow> size_rb (pendingBatches b1) < size_rb (pendingBatches b2))"
        using "1.IH"[OF p[symmetric] BuildRaised refl, of b1 w1 so] True f by simp
      then show ?thesis using sz BuildRaised by auto
    qed
  qed
qed

text \<open>The event loop runs the waiting cycles to the end: the state when nothing that the call
  has started is left to run.\<close>

function backgroundTicks ::
    "config \<Rightarrow> (nat \<Rightarrow> 'p cycleEnv) \<Rightarrow> ('p loreBatcher \<times> workerCore) \<times> 'p suspendedCycle option
     \<Rightarrow> 'p loreBatcher \<times> workerCore" where
  "backgroundTicks cfg envs (st, None) = st"
| "backgroundTicks cfg envs (st, Some s) = backgroundTicks cfg envs (resumeTick cfg envs s st)"
  by pat_completeness auto
termination
proof (relation "measure (\<lambda>(cfg, envs, st, so).
          2 * size_rb (pendingBatches (fst st)) + (case so of None \<Rightarrow> 0 | Some s \<Rightarrow> 1))")
  show "wf (measure (\<lambda>(cfg, envs, st, so).
          2 * size_rb (pendingBatches (fst st)) + (case so of None \<Rightarrow> 0 | Some s \<Rightarrow> 1)))"
    by simp
next
  fix cfg :: config and envs :: "nat \<Rightarrow> 'p cycleEnv"
    and st :: "'p loreBatcher \<times> workerCore" and s :: "'p suspendedCycle"
  obtain b1 w1 so where r: "resumeTick cfg envs s st = ((b1, w1), so)"
    by (metis surj_pair)
  have "size_rb (pendingBatches b1) \<le> size_rb (pendingBatches (fst st)) \<and>
        (so \<noteq> None \<longrightarrow> size_rb (pendingBatches b1) < size_rb (pendingBatches (fst st)))"
  proof (cases "length_rb (pendingBatches (fst st)) > 0")
    case False
    then show ?thesis using r by (auto simp: resumeTick_def Let_def split: prod.splits)
  next
    case True
    then obtain w5 where "fireTick cfg envs (sc_tick s + 1) (fst st, w5) = ((b1, w1), so)"
      using r by (auto simp: resumeTick_def Let_def split: prod.splits)
    from fireTick_size[OF this] show ?thesis by simp
  qed
  then show "((cfg, envs, resumeTick cfg envs s st), cfg, envs, st, Some s)
        \<in> measure (\<lambda>(cfg, envs, st, so).
             2 * size_rb (pendingBatches (fst st)) + (case so of None \<Rightarrow> 0 | Some s \<Rightarrow> 1))"
    unfolding r by (cases so) auto
qed

text \<open>The batches \<open>bs\<close> processed one after the other, the \<open>i\<close>-th one against \<open>envs (k + i)\<close>.\<close>

fun processAll :: "config \<Rightarrow> (nat \<Rightarrow> 'p cycleEnv) \<Rightarrow> nat \<Rightarrow> 'p loreBatch list \<Rightarrow> workerCore \<Rightarrow> workerCore" where
  "processAll cfg envs k [] w = w"
| "processAll cfg envs k (batch # bs) w =
     processAll cfg envs (k + 1) bs (processBatch cfg (envs k) batch (touch (tickClock (envs k)) w))"

text \<open>The events a cycle adds to the trace.\<close>

definition cycleEvents :: "config \<Rightarrow> 'p cycleEnv \<Rightarrow> 'p loreBatch \<Rightarrow> workerCore \<Rightarrow> worker_event list" where
  "cycleEvents cfg env batch w = drop (length (wtrace w)) (wtrace (snd (cycle cfg env batch w)))"

text \<open>The events of the secondary step: a call of the short-text generator, a call of the
  short-form publisher.\<close>

definition is_secondary :: "worker_event \<Rightarrow> bool" where
  "is_secondary e =
     (case e of Call_writeXNotification _ _ \<Rightarrow> True | Call_publishLoreToX _ _ \<Rightarrow> True
      | _ \<Rightarrow> False)"

definition is_call_writeLore :: "worker_event \<Rightarrow> bool" where
  "is_call_writeLore e = (case e of Call_writeLore _ \<Rightarrow> True | _ \<Rightarrow> False)"

definition is_call_publishLoreThread :: "worker_event \<Rightarrow> bool" where
  "is_call_publishLoreThread e = (case e of Call_publishLoreThread _ \<Rightarrow> True | _ \<Rightarrow> False)"

text \<open>The batches whose secondary step came to its end, in the order of the events: the
  short-form publisher was called, or the skip was logged.\<close>

fun xOutcomes :: "worker_event list \<Rightarrow> batchId list" where
  "xOutcomes [] = []"
| "xOutcomes (e # es) =
     (case e of
        Call_publishLoreToX bid _ \<Rightarrow> bid # xOutcomes es
      | X_publish_skipped_marketing_window bid _ \<Rightarrow> bid # xOutcomes es
      | _ \<Rightarrow> xOutcomes es)"

text \<open>Collaborators that succeed: the configuration gives a policy, every call answers, and
  the short texts pass the worker's check.\<close>

definition succeeds :: "config \<Rightarrow> 'p cycleEnv \<Rightarrow> bool" where
  "succeeds cfg env \<longleftrightarrow>
     (\<exists>p. getMarketingPolicy cfg = Inr p) \<and>
     (\<forall>batch mem. \<exists>x. buildLorePayload env batch mem = Inr x) \<and>
     (\<forall>payload bid. \<exists>lore. writeLoreUnlocked env payload bid = Inr lore) \<and>
     (\<exists>m. localMinutesNow env = Inr m) \<and>
     (\<forall>lore bid attempt ids.
        \<exists>text. writeXNotificationFromLoreUnlocked env lore bid attempt ids = Inr text \<and>
               isValidXNotificationText text []) \<and>
     (\<forall>batch parts. \<exists>r. publishLoreThread env batch parts = Inr r) \<and>
     (\<forall>lore bid text prompt. \<exists>r. publishLoreToXWithText env lore bid text prompt = Inr r)"

text \<open>A batch, collaborators that answer every call, and an idle worker with the empty store
  of capacity 10. The batch names the account \<^verbatim>\<open>alice.near\<close>; the short text the generator
  returns does not mention it.\<close>

definition exampleBatch :: "unit loreBatch" where
  "exampleBatch =
     \<lparr>batch_id = \<lparr>fromRound = 1, toRound = 20, stamp = 1000\<rparr>, createdAt = 1000,
      rounds = map (\<lambda>k. \<lparr>roundNumber = int k + 1, ts = 0, receivedAt = 0, snapshot = ()\<rparr>)
                   [0..<20]\<rparr>"

definition exampleCycleEnv :: "unit cycleEnv" where
  "exampleCycleEnv =
     \<lparr>tickClock = 5000,
      buildLorePayload = (\<lambda>batch mem. Inr (js ''payload'', js ''prompt'', [js ''alice.near''])),
      writeLoreUnlocked = (\<lambda>payload bid. Inr (js ''The forest remembers.'')),
      localMinutesNow = Inr 1200,
      writeXNotificationFromLoreUnlocked = (\<lambda>lore bid attempt ids. Inr (js ''hello'')),
      publishLoreThread = (\<lambda>batch parts. Inr \<lparr>rootKey = js ''root'', txHashes = [js ''tx1'']\<rparr>),
      storeClock = 6000,
      publishLoreToXWithText =
        (\<lambda>lore bid text prompt. Inr \<lparr>x_tweetId = Some (js ''1''), x_url = None, x_text = Some text\<rparr>)\<rparr>"

definition exampleCore :: workerCore where
  "exampleCore =
     \<lparr>wstate = \<lparr>busy = False, lastTickAt = None, lastBatchId = None, lastPublishedNear = None,
                lastPublishedX = None, lastError = None\<rparr>,
      store = \<lparr>buf = replicate 10 None, head = 0, size_rb = 0, capacity = 10\<rparr>,
      wtrace = []\<rparr>"

text \<open>A writer of chronicles that raises, and three pending batches in a ring of capacity 10.\<close>

definition failingCycleEnv :: "unit cycleEnv" where
  "failingCycleEnv =
     exampleCycleEnv\<lparr>writeLoreUnlocked := (\<lambda>payload bid. Inl (Error ''upstream timeout''))\<rparr>"

text \<open>A short-form publisher that raises, at a minute outside the marketing window.\<close>

definition failingPublisherEnv :: "unit cycleEnv" where
  "failingPublisherEnv =
     exampleCycleEnv\<lparr>localMinutesNow := Inr 1231,
                     publishLoreToXWithText :=
                       (\<lambda>lore bid text prompt. Inl (Error ''x api unavailable''))\<rparr>"

text \<open>The same outside during every tick.\<close>

definition exampleEnvs :: "nat \<Rightarrow> unit cycleEnv" where
  "exampleEnvs i = exampleCycleEnv"

definition exampleBatcher :: "unit loreBatcher" where
  "exampleBatcher =
     \<lparr>opts = \<lparr>roundsCapacity = 100, batchSize = 20, pendingCapacity = 10\<rparr>,
      roundsRing = \<lparr>buf = replicate 100 None, head = 0, size_rb = 0, capacity = 100\<rparr>,
      pendingBatches =
        \<lparr>buf = [Some exampleBatch,
                 Some (exampleBatch\<lparr>batch_id := \<lparr>fromRound = 21, toRound = 40, stamp = 2000\<rparr>\<rparr>),
                 Some (exampleBatch\<lparr>batch_id := \<lparr>fromRound = 41, toRound = 60, stamp = 3000\<rparr>\<rparr>)]
                @ replicate 7 None,
         head = 0, size_rb = 3, capacity = 10\<rparr>,
      unbatchedQueue = [], trace = []\<rparr>"

section \<open>The ring container refines a queue\<close>

subsection \<open>Reading the window\<close>

lemma fold_collect:
  "fold (\<lambda>i out. case f i of None \<Rightarrow> out | Some v \<Rightarrow> out @ [v]) xs acc =
   acc @ List.map_filter f xs"
  by (induction xs arbitrary: acc) (auto simp: List.map_filter_simps split: option.splits)

lemma map_filter_all_some:
  "\<forall>x\<in>set xs. f x \<noteq> None \<Longrightarrow> List.map_filter f xs = map (\<lambda>x. the (f x)) xs"
  by (induction xs) (auto simp: List.map_filter_simps split: option.splits)

lemma toArray_contents: "rb_inv rb \<Longrightarrow> toArray rb = contents rb"
  unfolding toArray_def contents_def rb_inv_def fold_collect
  by (simp add: slot_def map_filter_all_some list_all_iff)

lemma mod_window_inj_le:
  fixes h c i j :: nat
  assumes "i \<le> j" "j < c" "(h + i) mod c = (h + j) mod c"
  shows "i = j"
proof -
  have "c dvd (h + j) - (h + i)"
    using assms by (metis mod_eq_dvd_iff_nat add_le_cancel_left)
  then have "c dvd j - i" by simp
  moreover have "j - i < c" using assms by simp
  ultimately have "j - i = 0" using nat_dvd_not_less by blast
  then show ?thesis using assms by simp
qed

lemma mod_window_inj:
  fixes h c i j :: nat
  assumes "i < c" "j < c" "(h + i) mod c = (h + j) mod c"
  shows "i = j"
  using assms mod_window_inj_le[of i j c h] mod_window_inj_le[of j i c h]
  by (cases "i \<le> j") auto

subsection \<open>push\<close>

lemma push_not_full:
  "size_rb rb \<noteq> capacity rb \<Longrightarrow>
   push x rb = (None, rb\<lparr>buf := (buf rb)[(head rb + size_rb rb) mod capacity rb := Some x],
                          size_rb := size_rb rb + 1\<rparr>)"
  by (simp add: push_def)

lemma full_tail:
  fixes h c :: nat
  assumes "0 < c" "h < c"
  shows "((h + 1) mod c + (c - 1)) mod c = h"
proof -
  have "((h + 1) mod c + (c - 1)) mod c = ((h + 1) + (c - 1)) mod c"
    by (simp add: mod_add_left_eq)
  also have "\<dots> = (h + c) mod c" using assms by simp
  also have "\<dots> = h" using assms by simp
  finally show ?thesis .
qed

lemma full_tail_simp:
  fixes h c :: nat
  assumes "0 < c" "h < c"
  shows "(Suc h mod c + c - Suc 0) mod c = h"
proof -
  have "Suc h mod c + c - Suc 0 = (h + 1) mod c + (c - 1)" using assms by simp
  then show ?thesis using full_tail[OF assms] by simp
qed

lemma shift_window:
  fixes h c i :: nat
  shows "((h + 1) mod c + i) mod c = (h + (i + 1)) mod c"
  using mod_add_left_eq[of "h + 1" c i] by (simp add: ac_simps)

lemma push_full:
  "rb_inv rb \<Longrightarrow> size_rb rb = capacity rb \<Longrightarrow>
   push x rb = (buf rb ! head rb,
                rb\<lparr>buf := (buf rb)[head rb := Some x],
                   head := (head rb + 1) mod capacity rb,
                   size_rb := capacity rb\<rparr>)"
  by (simp add: push_def rb_inv_def slot_def full_tail_simp Let_def)

lemma contents_nth:
  "i < size_rb rb \<Longrightarrow> contents rb ! i = the (buf rb ! ((head rb + i) mod capacity rb))"
  by (simp add: contents_def)

lemma length_contents: "length (contents rb) = size_rb rb"
  by (simp add: contents_def)

lemma window_defined:
  "rb_inv rb \<Longrightarrow> i < size_rb rb \<Longrightarrow> buf rb ! ((head rb + i) mod capacity rb) \<noteq> None"
  by (simp add: rb_inv_def list_all_iff)

lemma push_inv: "rb_inv rb \<Longrightarrow> rb_inv (snd (push x rb))"
proof (cases "size_rb rb = capacity rb")
  case True
  assume inv: "rb_inv rb"
  have "list_all (\<lambda>i. (buf rb)[head rb := Some x] ! (((head rb + 1) mod capacity rb + i) mod capacity rb) \<noteq> None) [0..<capacity rb]"
    unfolding list_all_iff
  proof
    fix i assume "i \<in> set [0..<capacity rb]"
    then have i: "i < capacity rb" by simp
    have eq: "((head rb + 1) mod capacity rb + i) mod capacity rb = (head rb + (i + 1)) mod capacity rb"
      by (rule shift_window)
    show "(buf rb)[head rb := Some x] ! (((head rb + 1) mod capacity rb + i) mod capacity rb) \<noteq> None"
    proof (cases "i + 1 = capacity rb")
      case True
      then have "(head rb + (i + 1)) mod capacity rb = head rb"
        using inv by (simp add: rb_inv_def)
      then show ?thesis using inv eq by (simp add: rb_inv_def)
    next
      case False
      then have lt: "i + 1 < capacity rb" using i by simp
      have "(head rb + (i + 1)) mod capacity rb \<noteq> head rb"
      proof
        assume "(head rb + (i + 1)) mod capacity rb = head rb"
        then have "(head rb + (i + 1)) mod capacity rb = (head rb + 0) mod capacity rb"
          using inv by (simp add: rb_inv_def)
        from mod_window_inj[OF lt _ this] inv show False by (simp add: rb_inv_def)
      qed
      moreover have "buf rb ! ((head rb + (i + 1)) mod capacity rb) \<noteq> None"
        using window_defined[OF inv, of "i + 1"] lt True by simp
      ultimately show ?thesis using eq by simp
    qed
  qed
  then show ?thesis using inv True
    by (simp add: push_full) (simp add: rb_inv_def)
next
  case False
  assume inv: "rb_inv rb"
  then have lt: "size_rb rb < capacity rb" using False by (simp add: rb_inv_def)
  let ?t = "(head rb + size_rb rb) mod capacity rb"
  have "list_all (\<lambda>i. (buf rb)[?t := Some x] ! ((head rb + i) mod capacity rb) \<noteq> None) [0..<size_rb rb + 1]"
    unfolding list_all_iff
  proof
    fix i assume "i \<in> set [0..<size_rb rb + 1]"
    then have i: "i \<le> size_rb rb" by auto
    show "(buf rb)[?t := Some x] ! ((head rb + i) mod capacity rb) \<noteq> None"
    proof (cases "i = size_rb rb")
      case True
      then show ?thesis using inv by (simp add: rb_inv_def)
    next
      case False
      then have ilt: "i < size_rb rb" using i by simp
      have "(head rb + i) mod capacity rb \<noteq> ?t"
        using mod_window_inj[of i "capacity rb" "size_rb rb" "head rb"] ilt lt by auto
      moreover have "buf rb ! ((head rb + i) mod capacity rb) \<noteq> None"
        using inv ilt by (simp add: rb_inv_def list_all_iff)
      ultimately show ?thesis by simp
    qed
  qed
  then show ?thesis using inv False lt
    by (simp add: push_not_full) (simp add: rb_inv_def)
qed

lemma push_contents:
  assumes inv: "rb_inv rb"
  shows "contents (snd (push x rb)) =
         (if size_rb rb = capacity rb then tl (contents rb) else contents rb) @ [x]"
proof (cases "size_rb rb = capacity rb")
  case True
  let ?rb' = "rb\<lparr>buf := (buf rb)[head rb := Some x], head := (head rb + 1) mod capacity rb,
                 size_rb := capacity rb\<rparr>"
  have "contents ?rb' = tl (contents rb) @ [x]"
  proof (rule nth_equalityI)
    show "length (contents ?rb') = length (tl (contents rb) @ [x])"
      using inv True by (simp add: length_contents rb_inv_def)
  next
    fix i assume "i < length (contents ?rb')"
    then have i: "i < capacity rb" by (simp add: length_contents)
    have eq: "((head rb + 1) mod capacity rb + i) mod capacity rb = (head rb + (i + 1)) mod capacity rb"
      by (rule shift_window)
    show "contents ?rb' ! i = (tl (contents rb) @ [x]) ! i"
    proof (cases "i + 1 = capacity rb")
      case True
      then have "(head rb + (i + 1)) mod capacity rb = head rb"
        using inv by (simp add: rb_inv_def)
      moreover have "length (tl (contents rb)) = i"
        using True \<open>size_rb rb = capacity rb\<close> by (simp add: length_contents)
      ultimately show ?thesis using inv i eq
        by (simp add: contents_nth nth_append rb_inv_def)
    next
      case False
      then have lt: "i + 1 < capacity rb" using i by simp
      have ne: "(head rb + (i + 1)) mod capacity rb \<noteq> head rb"
      proof
        assume "(head rb + (i + 1)) mod capacity rb = head rb"
        then have "(head rb + (i + 1)) mod capacity rb = (head rb + 0) mod capacity rb"
          using inv by (simp add: rb_inv_def)
        from mod_window_inj[OF lt _ this] inv show False by (simp add: rb_inv_def)
      qed
      have "i < length (tl (contents rb))"
        using lt True by (simp add: length_contents)
      then have "(tl (contents rb) @ [x]) ! i = contents rb ! (i + 1)"
        by (simp add: nth_append nth_tl)
      also have "\<dots> = the (buf rb ! ((head rb + (i + 1)) mod capacity rb))"
        using lt True by (simp add: contents_nth)
      finally show ?thesis using i eq ne by (simp add: contents_nth)
    qed
  qed
  then show ?thesis using inv True by (simp add: push_full)
next
  case False
  then have lt: "size_rb rb < capacity rb" using inv by (simp add: rb_inv_def)
  let ?t = "(head rb + size_rb rb) mod capacity rb"
  let ?rb' = "rb\<lparr>buf := (buf rb)[?t := Some x], size_rb := size_rb rb + 1\<rparr>"
  have "contents ?rb' = contents rb @ [x]"
  proof (rule nth_equalityI)
    show "length (contents ?rb') = length (contents rb @ [x])"
      by (simp add: length_contents)
  next
    fix i assume "i < length (contents ?rb')"
    then have i: "i \<le> size_rb rb" by (simp add: length_contents)
    show "contents ?rb' ! i = (contents rb @ [x]) ! i"
    proof (cases "i = size_rb rb")
      case True
      then show ?thesis using inv
        by (simp add: contents_nth nth_append length_contents rb_inv_def)
    next
      case False
      then have ilt: "i < size_rb rb" using i by simp
      have "(head rb + i) mod capacity rb \<noteq> ?t"
        using mod_window_inj[of i "capacity rb" "size_rb rb" "head rb"] ilt lt by auto
      then show ?thesis using ilt
        by (simp add: contents_nth nth_append length_contents)
    qed
  qed
  then show ?thesis using False by (simp add: push_not_full)
qed

lemma push_dropped:
  assumes inv: "rb_inv rb"
  shows "fst (push x rb) = (if size_rb rb = capacity rb then Some (hd (contents rb)) else None)"
proof (cases "size_rb rb = capacity rb")
  case True
  then have "0 < size_rb rb" using inv by (simp add: rb_inv_def)
  moreover have "contents rb \<noteq> []" using \<open>0 < size_rb rb\<close> length_contents[of rb] by auto
  ultimately have "hd (contents rb) = the (buf rb ! head rb)"
    using inv by (simp add: hd_conv_nth contents_nth rb_inv_def)
  moreover have "buf rb ! head rb \<noteq> None"
    using inv \<open>0 < size_rb rb\<close> by (auto simp: rb_inv_def list_all_iff dest!: bspec[where x=0])
  ultimately show ?thesis using inv True by (auto simp: push_full)
next
  case False
  then show ?thesis by (simp add: push_not_full)
qed

subsection \<open>drain\<close>

lemma drain_loop_Suc:
  "drain_loop rb (Suc k) =
     (let (out, b) = drain_loop rb k; idx = (head rb + k) mod capacity rb
      in ((case slot b idx of None \<Rightarrow> out | Some v \<Rightarrow> out @ [v]), b[idx := None]))"
  by (simp add: drain_loop_def Let_def split: prod.splits)

lemma drain_loop_0: "drain_loop rb 0 = ([], buf rb)"
  by (simp add: drain_loop_def)

lemma drain_loop_spec:
  assumes inv: "rb_inv rb"
  shows "k \<le> size_rb rb \<Longrightarrow>
         fst (drain_loop rb k) = take k (contents rb) \<and>
         length (snd (drain_loop rb k)) = capacity rb \<and>
         (\<forall>i. k \<le> i \<and> i < size_rb rb \<longrightarrow>
              snd (drain_loop rb k) ! ((head rb + i) mod capacity rb) =
              buf rb ! ((head rb + i) mod capacity rb))"
proof (induction k)
  case 0
  then show ?case using inv by (simp add: drain_loop_0 rb_inv_def)
next
  case (Suc k)
  then have k: "k < size_rb rb" and IH:
    "fst (drain_loop rb k) = take k (contents rb)"
    "length (snd (drain_loop rb k)) = capacity rb"
    "\<forall>i. k \<le> i \<and> i < size_rb rb \<longrightarrow>
              snd (drain_loop rb k) ! ((head rb + i) mod capacity rb) =
              buf rb ! ((head rb + i) mod capacity rb)"
    by auto
  obtain out b where ob: "drain_loop rb k = (out, b)" by (cases "drain_loop rb k")
  let ?idx = "(head rb + k) mod capacity rb"
  have cap: "0 < capacity rb" "size_rb rb \<le> capacity rb" using inv by (auto simp: rb_inv_def)
  have idx: "?idx < capacity rb" using cap by simp
  have "b ! ?idx = buf rb ! ?idx" using IH(3) ob k by auto
  moreover obtain v where v: "buf rb ! ?idx = Some v"
    using window_defined[OF inv k] by auto
  ultimately have sl: "slot b ?idx = Some v" using IH(2) ob idx by (simp add: slot_def)
  have ck: "contents rb ! k = v" using k v by (simp add: contents_nth)
  have "take (Suc k) (contents rb) = take k (contents rb) @ [v]"
    using k ck by (simp add: take_Suc_conv_app_nth length_contents)
  then have 1: "fst (drain_loop rb (Suc k)) = take (Suc k) (contents rb)"
    using ob sl IH(1) by (simp add: drain_loop_Suc)
  have 2: "length (snd (drain_loop rb (Suc k))) = capacity rb"
    using ob IH(2) by (simp add: drain_loop_Suc Let_def)
  have 3: "\<forall>i. Suc k \<le> i \<and> i < size_rb rb \<longrightarrow>
              snd (drain_loop rb (Suc k)) ! ((head rb + i) mod capacity rb) =
              buf rb ! ((head rb + i) mod capacity rb)"
  proof (intro allI impI)
    fix i assume i: "Suc k \<le> i \<and> i < size_rb rb"
    then have "(head rb + i) mod capacity rb \<noteq> ?idx"
      using mod_window_inj[of i "capacity rb" k "head rb"] cap k by auto
    then show "snd (drain_loop rb (Suc k)) ! ((head rb + i) mod capacity rb) =
              buf rb ! ((head rb + i) mod capacity rb)"
      using ob IH(3) i by (simp add: drain_loop_Suc Let_def)
  qed
  from 1 2 3 show ?case by blast
qed

lemma drain_nonpos: "n \<le> 0 \<Longrightarrow> drain n rb = ([], rb)"
  by (simp add: drain_def)

lemma drain_pos:
  "0 < n \<Longrightarrow> drain n rb =
     (fst (drain_loop rb (min (nat n) (size_rb rb))),
      rb\<lparr>buf := snd (drain_loop rb (min (nat n) (size_rb rb))),
         head := (head rb + min (nat n) (size_rb rb)) mod capacity rb,
         size_rb := size_rb rb - min (nat n) (size_rb rb)\<rparr>)"
  by (simp add: drain_def Let_def split: prod.splits)

lemma drain_fst:
  assumes "rb_inv rb" "0 < n"
  shows "fst (drain n rb) = take (nat n) (contents rb)"
  using drain_loop_spec[OF assms(1), of "min (nat n) (size_rb rb)"] assms(2)
  by (simp add: drain_pos length_contents min_def)

lemma shift_window_k:
  fixes h c i k :: nat
  shows "((h + k) mod c + i) mod c = (h + (k + i)) mod c"
  using mod_add_left_eq[of "h + k" c i] by (simp add: ac_simps)

lemma drain_inv:
  assumes inv: "rb_inv rb"
  shows "rb_inv (snd (drain n rb))"
proof (cases "0 < n")
  case False
  then show ?thesis using inv by (simp add: drain_nonpos)
next
  case True
  let ?k = "min (nat n) (size_rb rb)"
  have spec: "length (snd (drain_loop rb ?k)) = capacity rb"
     "\<forall>i. ?k \<le> i \<and> i < size_rb rb \<longrightarrow>
              snd (drain_loop rb ?k) ! ((head rb + i) mod capacity rb) =
              buf rb ! ((head rb + i) mod capacity rb)"
    using drain_loop_spec[OF inv, of ?k] by auto
  have cap: "0 < capacity rb" "size_rb rb \<le> capacity rb" using inv by (auto simp: rb_inv_def)
  have "list_all (\<lambda>i. snd (drain_loop rb ?k) ! (((head rb + ?k) mod capacity rb + i) mod capacity rb) \<noteq> None)
          [0..<size_rb rb - ?k]"
    unfolding list_all_iff
  proof
    fix i assume "i \<in> set [0..<size_rb rb - ?k]"
    then have i: "?k + i < size_rb rb" by auto
    then have "snd (drain_loop rb ?k) ! ((head rb + (?k + i)) mod capacity rb) =
               buf rb ! ((head rb + (?k + i)) mod capacity rb)"
      using spec(2) by auto
    then show "snd (drain_loop rb ?k) ! (((head rb + ?k) mod capacity rb + i) mod capacity rb) \<noteq> None"
      using window_defined[OF inv i] by (simp only: shift_window_k) simp
  qed
  then show ?thesis using True spec(1) cap
    by (simp add: drain_pos) (simp add: rb_inv_def)
qed

lemma drain_contents:
  assumes inv: "rb_inv rb" and n: "0 < n"
  shows "contents (snd (drain n rb)) = drop (nat n) (contents rb)"
proof -
  let ?k = "min (nat n) (size_rb rb)"
  let ?rb' = "rb\<lparr>buf := snd (drain_loop rb ?k), head := (head rb + ?k) mod capacity rb,
                  size_rb := size_rb rb - ?k\<rparr>"
  have spec: "\<forall>i. ?k \<le> i \<and> i < size_rb rb \<longrightarrow>
              snd (drain_loop rb ?k) ! ((head rb + i) mod capacity rb) =
              buf rb ! ((head rb + i) mod capacity rb)"
    using drain_loop_spec[OF inv, of ?k] by auto
  have "contents ?rb' = drop ?k (contents rb)"
  proof (rule nth_equalityI)
    show "length (contents ?rb') = length (drop ?k (contents rb))"
      by (simp add: length_contents)
  next
    fix i assume "i < length (contents ?rb')"
    then have i: "?k + i < size_rb rb" by (simp add: length_contents)
    then have i': "i < size_rb rb - ?k" by simp
    have "contents ?rb' ! i = the (snd (drain_loop rb ?k) ! (((head rb + ?k) mod capacity rb + i) mod capacity rb))"
      using i' by (simp add: contents_nth)
    also have "\<dots> = the (snd (drain_loop rb ?k) ! ((head rb + (?k + i)) mod capacity rb))"
      by (simp only: shift_window_k)
    also have "\<dots> = the (buf rb ! ((head rb + (?k + i)) mod capacity rb))"
      using spec i by auto
    also have "\<dots> = contents rb ! (?k + i)" using i by (simp add: contents_nth)
    also have "\<dots> = drop ?k (contents rb) ! i" using i by (simp add: length_contents)
    finally show "contents ?rb' ! i = drop ?k (contents rb) ! i" .
  qed
  moreover have "drop ?k (contents rb) = drop (nat n) (contents rb)"
    by (simp add: min_def length_contents)
  ultimately show ?thesis using n by (simp add: drain_pos)
qed

subsection \<open>Sequences of pushes\<close>

lemma newRingBuffer_inv:
  "newRingBuffer C = Inr rb \<Longrightarrow> rb_inv rb \<and> contents rb = [] \<and> capacity rb = nat C \<and> size_rb rb = 0"
  by (auto simp: newRingBuffer_def rb_inv_def contents_def split: if_splits)

lemma push_capacity: "capacity (snd (push x rb)) = capacity rb"
  by (simp add: push_def Let_def split: prod.splits)

declare pushAll.simps(2) [simp del]

lemma pushAll_Cons:
  "pushAll (x # xs) rb = (fst (push x rb) # fst (pushAll xs (snd (push x rb))),
                          snd (pushAll xs (snd (push x rb))))"
  by (simp add: pushAll.simps(2) Let_def split: prod.splits)

lemma pushAll_inv:
  "rb_inv rb \<Longrightarrow> rb_inv (snd (pushAll xs rb)) \<and> capacity (snd (pushAll xs rb)) = capacity rb"
proof (induction xs arbitrary: rb)
  case Nil
  then show ?case by simp
next
  case (Cons x xs)
  from Cons.IH[OF push_inv[OF Cons.prems, of x]] show ?case
    by (simp only: pushAll_Cons snd_conv push_capacity) 
qed

lemma drop_full_step:
  assumes "c \<noteq> []"
  shows "drop (length (tl c @ [x] @ xs) - length c) (tl c @ [x] @ xs) =
         drop (length (c @ x # xs) - length c) (c @ x # xs)"
proof -
  obtain a c' where c: "c = a # c'" using assms by (cases c) auto
  show ?thesis unfolding c by simp
qed

lemma pushAll_contents:
  "rb_inv rb \<Longrightarrow>
   contents (snd (pushAll xs rb)) =
     drop (length (contents rb @ xs) - capacity rb) (contents rb @ xs)"
proof (induction xs arbitrary: rb)
  case Nil
  then show ?case by (simp add: length_contents rb_inv_def)
next
  case (Cons x xs)
  let ?rb1 = "snd (push x rb)"
  have inv1: "rb_inv ?rb1" using Cons.prems by (rule push_inv)
  have IH: "contents (snd (pushAll xs ?rb1)) =
            drop (length (contents ?rb1 @ xs) - capacity rb) (contents ?rb1 @ xs)"
    using Cons.IH[OF inv1] by (simp only: push_capacity)
  show ?case
  proof (cases "size_rb rb = capacity rb")
    case True
    then have ne: "contents rb \<noteq> []" and len: "length (contents rb) = capacity rb"
      using Cons.prems length_contents[of rb] by (auto simp: rb_inv_def)
    have c1: "contents ?rb1 = tl (contents rb) @ [x]"
      using push_contents[OF Cons.prems, of x] True by simp
    show ?thesis
      using drop_full_step[OF ne, of x xs] IH
      by (simp only: pushAll_Cons snd_conv c1 len append_assoc)
  next
    case False
    have c1: "contents ?rb1 = contents rb @ [x]"
      using push_contents[OF Cons.prems, of x] False by simp
    show ?thesis using IH by (simp only: pushAll_Cons snd_conv c1) simp
  qed
qed

lemma push_size:
  "rb_inv rb \<Longrightarrow> size_rb (snd (push x rb)) = (if size_rb rb = capacity rb then capacity rb else size_rb rb + 1)"
  by (auto simp: push_full push_not_full)

lemma length_pushAll: "length (fst (pushAll xs rb)) = length xs"
  by (induction xs arbitrary: rb) (simp_all add: pushAll_Cons)

lemma pushAll_reports:
  "rb_inv rb \<Longrightarrow> k < length xs \<Longrightarrow>
   fst (pushAll xs rb) ! k =
     (if capacity rb \<le> size_rb rb + k
      then Some ((contents rb @ xs) ! (size_rb rb + k - capacity rb)) else None)"
proof (induction xs arbitrary: rb k)
  case Nil
  then show ?case by simp
next
  case (Cons x xs)
  let ?rb1 = "snd (push x rb)"
  have inv1: "rb_inv ?rb1" using Cons.prems(1) by (rule push_inv)
  have sz: "size_rb rb \<le> capacity rb" "0 < capacity rb" "length (contents rb) = size_rb rb"
    using Cons.prems(1) by (auto simp: rb_inv_def length_contents)
  show ?case
  proof (cases k)
    case 0
    have "size_rb rb = capacity rb \<Longrightarrow> (contents rb @ x # xs) ! 0 = hd (contents rb)"
      using sz by (cases "contents rb") auto
    then show ?thesis using push_dropped[OF Cons.prems(1), of x] sz 0
      by (auto simp: pushAll_Cons)
  next
    case (Suc k')
    then have k': "k' < length xs" using Cons.prems(2) by simp
    have IH: "fst (pushAll xs ?rb1) ! k' =
       (if capacity rb \<le> size_rb ?rb1 + k'
        then Some ((contents ?rb1 @ xs) ! (size_rb ?rb1 + k' - capacity rb)) else None)"
      using Cons.IH[OF inv1 k'] by (simp only: push_capacity)
    show ?thesis
    proof (cases "size_rb rb = capacity rb")
      case True
      then obtain a c' where c: "contents rb = a # c'" using sz by (cases "contents rb") auto
      have c1: "contents ?rb1 = c' @ [x]"
        using push_contents[OF Cons.prems(1), of x] True c by simp
      have s1: "size_rb ?rb1 = capacity rb" using push_size[OF Cons.prems(1), of x] True by simp
      show ?thesis using IH True Suc
        by (simp add: pushAll_Cons c c1 s1)
    next
      case False
      have c1: "contents ?rb1 = contents rb @ [x]"
        using push_contents[OF Cons.prems(1), of x] False by simp
      have s1: "size_rb ?rb1 = size_rb rb + 1" using push_size[OF Cons.prems(1), of x] False by simp
      show ?thesis using IH False Suc
        by (simp add: pushAll_Cons c1 s1)
    qed
  qed
qed

lemma pushAll_take_fst:
  "n \<le> length xs \<Longrightarrow> k < n \<Longrightarrow> fst (pushAll (take n xs) rb) ! k = fst (pushAll xs rb) ! k"
proof (induction xs arbitrary: rb n k)
  case Nil
  then show ?case by simp
next
  case (Cons x xs)
  then obtain n' where n: "n = Suc n'" by (cases n) auto
  show ?case
  proof (cases k)
    case 0
    then show ?thesis using n by (simp add: pushAll_Cons)
  next
    case (Suc k')
    then show ?thesis using n Cons.prems Cons.IH[of n' k' "snd (push x rb)"]
      by (simp add: pushAll_Cons)
  qed
qed

text \<open>C7. A buffer built with a capacity \<open>C > 0\<close> never holds more than \<open>C\<close> elements,
  whatever is pushed; after \<open>n\<close> pushes it holds the last \<open>C\<close> of them in order, and for
  \<open>n > C\<close> the \<open>n\<close>-th push reports as dropped the item pushed \<open>C\<close> calls earlier, the
  \<open>(n - C)\<close>-th one (the \<open>n\<close>-th push is index \<open>n - 1\<close> of the list); up to \<open>C\<close> pushes
  nothing is dropped.\<close>

theorem ring_push_bounded_evicts_oldest:
  "0 < C \<Longrightarrow>
   \<exists>rb0. newRingBuffer C = Inr rb0 \<and>
     (\<forall>xs n. n \<le> length xs \<longrightarrow>
        length_rb (snd (pushAll (take n xs) rb0)) \<le> nat C \<and>
        toArray (snd (pushAll (take n xs) rb0)) = drop (n - nat C) (take n xs) \<and>
        (0 < n \<longrightarrow>
           fst (pushAll (take n xs) rb0) ! (n - 1) =
             (if nat C < n then Some (xs ! (n - 1 - nat C)) else None)))"
proof -
  assume C: "0 < C"
  define rb0 :: "'a ringBuffer" where
    "rb0 = \<lparr>buf = replicate (nat C) None, head = 0, size_rb = 0, capacity = nat C\<rparr>"
  have new: "newRingBuffer C = Inr rb0" using C by (simp add: newRingBuffer_def rb0_def)
  note init = newRingBuffer_inv[OF new]
  have "length_rb (snd (pushAll (take n xs) rb0)) \<le> nat C \<and>
        toArray (snd (pushAll (take n xs) rb0)) = drop (n - nat C) (take n xs) \<and>
        (0 < n \<longrightarrow>
           fst (pushAll (take n xs) rb0) ! (n - 1) =
             (if nat C < n then Some (xs ! (n - 1 - nat C)) else None))"
    if n: "n \<le> length xs" for xs :: "'a list" and n
  proof -
    let ?rb = "snd (pushAll (take n xs) rb0)"
    have inv: "rb_inv ?rb" "capacity ?rb = nat C"
      using pushAll_inv[of rb0 "take n xs"] init by auto
    then have 1: "length_rb ?rb \<le> nat C" by (simp add: rb_inv_def length_rb_def)
    have 2: "toArray ?rb = drop (n - nat C) (take n xs)"
      using pushAll_contents[of rb0 "take n xs"] init n toArray_contents[OF inv(1)]
      by (simp add: min_def)
    have 3: "fst (pushAll (take n xs) rb0) ! (n - 1) =
             (if nat C < n then Some (xs ! (n - 1 - nat C)) else None)" if "0 < n"
    proof -
      have "n - 1 < length (take n xs)" using n that by simp
      from pushAll_reports[of rb0 "n - 1" "take n xs", OF _ this] init that
      show ?thesis by (auto simp: less_eq_Suc_le)
    qed
    from 1 2 3 show ?thesis by blast
  qed
  with new show ?thesis by blast
qed

theorem ring_push_bounded_evicts_oldest_witness:
  "(0::int) < 3 \<and>
   (\<exists>rb0. newRingBuffer 3 = Inr rb0 \<and>
      length_rb (snd (pushAll (take 5 [10, 20, 30, 40, 50 :: nat]) rb0)) \<le> 3 \<and>
      toArray (snd (pushAll (take 5 [10, 20, 30, 40, 50 :: nat]) rb0)) = [30, 40, 50] \<and>
      fst (pushAll (take 5 [10, 20, 30, 40, 50 :: nat]) rb0) ! 4 = Some 20)"
proof -
  have C: "(0::int) < 3" by simp
  from ring_push_bounded_evicts_oldest[OF C, where 'a = nat]
  obtain rb0 :: "nat ringBuffer" where new: "newRingBuffer 3 = Inr rb0"
    and all: "\<forall>xs n. n \<le> length xs \<longrightarrow>
        length_rb (snd (pushAll (take n xs) rb0)) \<le> nat 3 \<and>
        toArray (snd (pushAll (take n xs) rb0)) = drop (n - nat 3) (take n xs) \<and>
        (0 < n \<longrightarrow>
           fst (pushAll (take n xs) rb0) ! (n - 1) =
             (if nat 3 < n then Some (xs ! (n - 1 - nat 3)) else None))"
    by blast
  have "5 \<le> length [10, 20, 30, 40, 50 :: nat]" by simp
  with all have "length_rb (snd (pushAll (take 5 [10, 20, 30, 40, 50 :: nat]) rb0)) \<le> nat 3 \<and>
        toArray (snd (pushAll (take 5 [10, 20, 30, 40, 50 :: nat]) rb0)) = drop (5 - nat 3) (take 5 [10, 20, 30, 40, 50 :: nat]) \<and>
        (0 < (5::nat) \<longrightarrow>
           fst (pushAll (take 5 [10, 20, 30, 40, 50 :: nat]) rb0) ! (5 - 1) =
             (if nat 3 < 5 then Some ([10, 20, 30, 40, 50 :: nat] ! (5 - 1 - nat 3)) else None))"
    by blast
  then show ?thesis using new C by (simp)
qed

subsection \<open>drain followed by toArray\<close>

text \<open>C8. In a buffer that satisfies the class invariant and holds \<open>e1 .. ek\<close> (its
  \<open>toArray\<close>), \<open>drain n\<close> for an integer \<open>n \<ge> 1\<close> returns the first \<open>min n k\<close> elements in
  order, and \<open>toArray\<close> of the buffer it leaves is the rest, in the original order.\<close>

theorem drain_then_toArray:
  "rb_inv rb \<Longrightarrow> 1 \<le> n \<Longrightarrow>
   fst (drain n rb) = take (min (nat n) (length (toArray rb))) (toArray rb) \<and>
   toArray (snd (drain n rb)) = drop (min (nat n) (length (toArray rb))) (toArray rb) \<and>
   length_rb (snd (drain n rb)) = length (toArray rb) - min (nat n) (length (toArray rb))"
proof -
  assume inv: "rb_inv rb" and n: "1 \<le> n"
  then have pos: "0 < n" by simp
  have inv': "rb_inv (snd (drain n rb))" using inv by (rule drain_inv)
  have l: "length (toArray rb) = size_rb rb"
    by (simp add: toArray_contents[OF inv] length_contents)
  have 1: "fst (drain n rb) = take (min (nat n) (length (toArray rb))) (toArray rb)"
    using drain_fst[OF inv pos] by (simp add: toArray_contents[OF inv] min_def)
  have 2: "toArray (snd (drain n rb)) = drop (min (nat n) (length (toArray rb))) (toArray rb)"
    using drain_contents[OF inv pos]
    by (simp add: toArray_contents[OF inv] toArray_contents[OF inv'] min_def)
  have 3: "length_rb (snd (drain n rb)) = length (toArray rb) - min (nat n) (length (toArray rb))"
    using pos by (simp add: l length_rb_def drain_pos)
  from 1 2 3 show ?thesis by blast
qed

theorem drain_then_toArray_witness:
  "rb_inv \<lparr>buf = [Some 40, Some 20, Some (30::nat)], head = 1, size_rb = 3, capacity = 3\<rparr> \<and>
   (1::int) \<le> 2 \<and>
   fst (drain 2 \<lparr>buf = [Some 40, Some 20, Some (30::nat)], head = 1, size_rb = 3, capacity = 3\<rparr>)
     = [20, 30] \<and>
   toArray (snd (drain 2 \<lparr>buf = [Some 40, Some 20, Some (30::nat)], head = 1, size_rb = 3,
                            capacity = 3\<rparr>)) = [40]"
proof -
  let ?rb = "\<lparr>buf = [Some 40, Some 20, Some (30::nat)], head = 1, size_rb = 3, capacity = 3\<rparr>"
  have inv: "rb_inv ?rb" by code_simp
  have n: "(1::int) \<le> 2" by simp
  have t: "toArray ?rb = [20, 30, 40]" by code_simp
  from drain_then_toArray[OF inv n, unfolded t] inv show ?thesis by simp
qed

section \<open>The batch assembler cuts consecutive batches\<close>

declare form_batches.simps [simp del]

lemma form_batches_idle:
  "length (unbatchedQueue b) < batchSize (opts b) \<Longrightarrow> form_batches now j b = Inr b"
  by (subst form_batches.simps) simp

lemma form_batches_cut:
  assumes le: "batchSize (opts b) \<le> length (unbatchedQueue b)" and pos: "0 < batchSize (opts b)"
  shows "form_batches now j b =
         form_batches now (j + 1)
           (b\<lparr>unbatchedQueue := drop (batchSize (opts b)) (unbatchedQueue b),
              pendingBatches :=
                snd (push (batch_of now j (take (batchSize (opts b)) (unbatchedQueue b)))
                          (pendingBatches b)),
              trace := trace b @
                [Lore_batch_ready
                   (batch_id (batch_of now j (take (batchSize (opts b)) (unbatchedQueue b))))
                   (batchSize (opts b))
                   (roundNumber (hd (take (batchSize (opts b)) (unbatchedQueue b))))
                   (roundNumber (last (take (batchSize (opts b)) (unbatchedQueue b)))),
                 OnBatchReady]\<rparr>)"
proof -
  define tk where "tk = take (batchSize (opts b)) (unbatchedQueue b)"
  have len: "length tk = batchSize (opts b)" using le by (simp add: tk_def)
  then obtain r0 rs where tk: "tk = r0 # rs" using pos by (cases tk) auto
  have "form_batches now j b =
        (case tk of
           [] \<Rightarrow> Inl (Error ''TypeError: cannot read roundNumber of undefined'')
         | r0 # rs \<Rightarrow>
             let tailRound = roundNumber (last (r0 # rs));
                 bid = \<lparr>fromRound = roundNumber r0, toRound = tailRound, stamp = now (2 * j)\<rparr>;
                 batch = \<lparr>batch_id = bid, createdAt = now (2 * j + 1), rounds = r0 # rs\<rparr>;
                 pend = snd (push batch (pendingBatches b))
             in form_batches now (j + 1)
                  (b\<lparr>unbatchedQueue := drop (batchSize (opts b)) (unbatchedQueue b),
                     pendingBatches := pend,
                     trace := trace b @ [Lore_batch_ready bid (length (r0 # rs))
                                           (roundNumber r0) tailRound,
                                         OnBatchReady]\<rparr>))"
    unfolding tk_def using le by (subst form_batches.simps) simp
  also have "\<dots> = form_batches now (j + 1)
           (b\<lparr>unbatchedQueue := drop (batchSize (opts b)) (unbatchedQueue b),
              pendingBatches := snd (push (batch_of now j tk) (pendingBatches b)),
              trace := trace b @
                [Lore_batch_ready (batch_id (batch_of now j tk)) (batchSize (opts b))
                   (roundNumber (hd tk)) (roundNumber (last tk)),
                 OnBatchReady]\<rparr>)"
    using len unfolding tk by (simp add: Let_def batch_of_def)
  finally show ?thesis unfolding tk_def .
qed

lemma form_batches_one:
  assumes "length (unbatchedQueue b) = batchSize (opts b)" "0 < batchSize (opts b)"
  shows "form_batches now j b =
         Inr (b\<lparr>unbatchedQueue := [],
                pendingBatches := snd (push (batch_of now j (unbatchedQueue b)) (pendingBatches b)),
                trace := trace b @
                  [Lore_batch_ready (batch_id (batch_of now j (unbatchedQueue b)))
                     (batchSize (opts b)) (roundNumber (hd (unbatchedQueue b)))
                     (roundNumber (last (unbatchedQueue b))),
                   OnBatchReady]\<rparr>)"
proof -
  have "form_batches now j b = form_batches now (j + 1)
           (b\<lparr>unbatchedQueue := [],
                pendingBatches := snd (push (batch_of now j (unbatchedQueue b)) (pendingBatches b)),
                trace := trace b @
                  [Lore_batch_ready (batch_id (batch_of now j (unbatchedQueue b)))
                     (batchSize (opts b)) (roundNumber (hd (unbatchedQueue b)))
                     (roundNumber (last (unbatchedQueue b))),
                   OnBatchReady]\<rparr>)"
    using form_batches_cut[of b now j] assms by simp
  also have "\<dots> = Inr (b\<lparr>unbatchedQueue := [],
                pendingBatches := snd (push (batch_of now j (unbatchedQueue b)) (pendingBatches b)),
                trace := trace b @
                  [Lore_batch_ready (batch_id (batch_of now j (unbatchedQueue b)))
                     (batchSize (opts b)) (roundNumber (hd (unbatchedQueue b)))
                     (roundNumber (last (unbatchedQueue b))),
                   OnBatchReady]\<rparr>)"
    using assms(2) by (intro form_batches_idle) simp
  finally show ?thesis .
qed

lemma ingest_no_batch:
  assumes "length (unbatchedQueue b) + 1 < batchSize (opts b)"
  shows "\<exists>b'. ingest now r b = Inr b' \<and> unbatchedQueue b' = unbatchedQueue b @ [r] \<and>
              pendingBatches b' = pendingBatches b \<and> opts b' = opts b \<and>
              filter is_batch_ready (trace b') = filter is_batch_ready (trace b)"
  using assms
  by (auto simp: ingest_def Let_def form_batches_idle is_batch_ready_def
           split: prod.splits option.splits)

lemma ingest_completes_batch:
  assumes "length (unbatchedQueue b) + 1 = batchSize (opts b)"
  shows "\<exists>b'. ingest now r b = Inr b' \<and> unbatchedQueue b' = [] \<and>
              pendingBatches b' =
                snd (push (batch_of now 0 (unbatchedQueue b @ [r])) (pendingBatches b)) \<and>
              opts b' = opts b \<and>
              filter is_batch_ready (trace b') =
                filter is_batch_ready (trace b) @
                [Lore_batch_ready (batch_id (batch_of now 0 (unbatchedQueue b @ [r])))
                   (batchSize (opts b)) (roundNumber (hd (unbatchedQueue b @ [r])))
                   (roundNumber r)]"
  using assms
  by (auto simp: ingest_def Let_def form_batches_one is_batch_ready_def
           split: prod.splits option.splits)

lemma ingestAll_append:
  "ingestAll (xs @ ys) b =
     (case ingestAll xs b of Inl e \<Rightarrow> Inl e | Inr b1 \<Rightarrow> ingestAll ys b1)"
  by (induction xs arbitrary: b) (auto split: sum.splits)

lemma ingestAll_fill:
  "length (unbatchedQueue b) + length ds < batchSize (opts b) \<Longrightarrow>
   \<exists>b'. ingestAll ds b = Inr b' \<and> unbatchedQueue b' = unbatchedQueue b @ map snd ds \<and>
        pendingBatches b' = pendingBatches b \<and> opts b' = opts b \<and>
        filter is_batch_ready (trace b') = filter is_batch_ready (trace b)"
proof (induction ds arbitrary: b)
  case Nil
  then show ?case by simp
next
  case (Cons d ds)
  obtain now r where d: "d = (now, r)" by (cases d)
  from Cons.prems have "length (unbatchedQueue b) + 1 < batchSize (opts b)" by simp
  from ingest_no_batch[OF this, of now r] obtain b1 where
    b1: "ingest now r b = Inr b1" "unbatchedQueue b1 = unbatchedQueue b @ [r]"
        "pendingBatches b1 = pendingBatches b" "opts b1 = opts b"
        "filter is_batch_ready (trace b1) = filter is_batch_ready (trace b)"
    by blast
  have "length (unbatchedQueue b1) + length ds < batchSize (opts b1)"
    using Cons.prems b1 by simp
  from Cons.IH[OF this] b1 d show ?case by auto
qed

text \<open>Twenty deliveries into an empty queue: nineteen fill it, the twentieth cuts the batch.\<close>

lemma ingestAll_round:
  assumes "unbatchedQueue b = []" "length ds = batchSize (opts b)" "0 < batchSize (opts b)"
  shows "\<exists>b'. ingestAll ds b = Inr b' \<and> unbatchedQueue b' = [] \<and>
        pendingBatches b' =
          snd (push (batch_of (fst (last ds)) 0 (map snd ds)) (pendingBatches b)) \<and>
        opts b' = opts b \<and>
        filter is_batch_ready (trace b') =
          filter is_batch_ready (trace b) @
          [Lore_batch_ready (batch_id (batch_of (fst (last ds)) 0 (map snd ds)))
             (batchSize (opts b)) (roundNumber (hd (map snd ds)))
             (roundNumber (last (map snd ds)))]"
proof -
  from assms obtain ds' d where ds: "ds = ds' @ [d]"
    by (cases ds rule: rev_cases) auto
  obtain now r where d: "d = (now, r)" by (cases d)
  have "length (unbatchedQueue b) + length ds' < batchSize (opts b)"
    using assms ds by simp
  from ingestAll_fill[OF this] obtain b1 where
    b1: "ingestAll ds' b = Inr b1" "unbatchedQueue b1 = map snd ds'"
        "pendingBatches b1 = pendingBatches b" "opts b1 = opts b"
        "filter is_batch_ready (trace b1) = filter is_batch_ready (trace b)"
    using assms(1) by auto
  have "length (unbatchedQueue b1) + 1 = batchSize (opts b1)"
    using b1 assms ds by simp
  from ingest_completes_batch[OF this, of now r] obtain b2 where
    b2: "ingest now r b1 = Inr b2" "unbatchedQueue b2 = []"
        "pendingBatches b2 =
           snd (push (batch_of now 0 (unbatchedQueue b1 @ [r])) (pendingBatches b1))"
        "opts b2 = opts b1"
        "filter is_batch_ready (trace b2) =
           filter is_batch_ready (trace b1) @
           [Lore_batch_ready (batch_id (batch_of now 0 (unbatchedQueue b1 @ [r])))
              (batchSize (opts b1)) (roundNumber (hd (unbatchedQueue b1 @ [r])))
              (roundNumber r)]"
    by blast
  have "ingestAll ds b = Inr b2" using b1(1) b2(1) ds d by (simp add: ingestAll_append)
  then show ?thesis using b1 b2 ds d by simp
qed

lemma newLoreBatcher_ok:
  assumes "0 < roundsCapacity os" "0 < pendingCapacity os"
  shows "\<exists>b0. newLoreBatcher os = Inr b0 \<and> opts b0 = os \<and> unbatchedQueue b0 = [] \<and>
              trace b0 = [] \<and> rb_inv (pendingBatches b0) \<and> contents (pendingBatches b0) = [] \<and>
              capacity (pendingBatches b0) = nat (pendingCapacity os) \<and>
              size_rb (pendingBatches b0) = 0"
  using assms
  by (auto simp: newLoreBatcher_def newRingBuffer_def rb_inv_def contents_def)

lemma push_two:
  assumes inv: "rb_inv rb" and e: "contents rb = []" and c: "2 \<le> capacity rb"
  shows "toArray (snd (push y (snd (push x rb)))) = [x, y]"
proof -
  have s0: "size_rb rb = 0" using e length_contents[of rb] by simp
  let ?r1 = "snd (push x rb)"
  have inv1: "rb_inv ?r1" using inv by (rule push_inv)
  have c1: "contents ?r1 = [x]" using push_contents[OF inv, of x] s0 c e by simp
  have s1: "size_rb ?r1 = 1" using push_size[OF inv, of x] s0 c by simp
  have cap1: "capacity ?r1 = capacity rb" by (rule push_capacity)
  have "contents (snd (push y ?r1)) = [x, y]"
    using push_contents[OF inv1, of y] s1 cap1 c c1 by simp
  then show ?thesis using toArray_contents[OF push_inv[OF inv1, of y]] by simp
qed

text \<open>C9. A batcher built with batch size 20 (any positive rounds capacity, a pending
  capacity of at least two) that ingests 45 records forms exactly two batches: the pending
  ring holds the records 1 to 20 and 21 to 40 of the delivery order, each batch carries the
  round numbers of its first and last record, two ready notifications are logged, and the
  last five records stay in the unbatched queue.\<close>

theorem batcher_45_records_two_batches:
  "0 < rc \<Longrightarrow> 2 \<le> pc \<Longrightarrow> length ds = 45 \<Longrightarrow>
   \<exists>b0 b.
     newLoreBatcher \<lparr>roundsCapacity = rc, batchSize = 20, pendingCapacity = pc\<rparr> = Inr b0 \<and>
     ingestAll ds b0 = Inr b \<and>
     map rounds (toArray (pendingBatches b)) =
       [take 20 (map snd ds), take 20 (drop 20 (map snd ds))] \<and>
     map batch_id (toArray (pendingBatches b)) =
       [\<lparr>fromRound = roundNumber (snd (ds ! 0)), toRound = roundNumber (snd (ds ! 19)),
         stamp = fst (ds ! 19) 0\<rparr>,
        \<lparr>fromRound = roundNumber (snd (ds ! 20)), toRound = roundNumber (snd (ds ! 39)),
         stamp = fst (ds ! 39) 0\<rparr>] \<and>
     filter is_batch_ready (trace b) =
       [Lore_batch_ready \<lparr>fromRound = roundNumber (snd (ds ! 0)),
                          toRound = roundNumber (snd (ds ! 19)), stamp = fst (ds ! 19) 0\<rparr>
          20 (roundNumber (snd (ds ! 0))) (roundNumber (snd (ds ! 19))),
        Lore_batch_ready \<lparr>fromRound = roundNumber (snd (ds ! 20)),
                          toRound = roundNumber (snd (ds ! 39)), stamp = fst (ds ! 39) 0\<rparr>
          20 (roundNumber (snd (ds ! 20))) (roundNumber (snd (ds ! 39)))] \<and>
     unbatchedQueue b = drop 40 (map snd ds) \<and> length (unbatchedQueue b) = 5"
proof -
  assume rc: "0 < rc" and pc: "2 \<le> pc" and len: "length ds = 45"
  let ?os = "\<lparr>roundsCapacity = rc, batchSize = 20, pendingCapacity = pc\<rparr>"
  define d1 where "d1 = take 20 ds"
  define d2 where "d2 = take 20 (drop 20 ds)"
  define d3 where "d3 = drop 40 ds"
  have split: "ds = d1 @ d2 @ d3"
    unfolding d1_def d2_def d3_def
    by (metis append_take_drop_id drop_drop numeral_Bit0 add.commute)
  have l1: "length d1 = 20" and l2: "length d2 = 20" and l3: "length d3 = 5"
    using len by (simp_all add: d1_def d2_def d3_def)
  from newLoreBatcher_ok[of ?os] rc pc obtain b0 :: "'a loreBatcher" where
    b0: "newLoreBatcher ?os = Inr b0" "opts b0 = ?os" "unbatchedQueue b0 = []" "trace b0 = []"
        "rb_inv (pendingBatches b0)" "contents (pendingBatches b0) = []"
        "capacity (pendingBatches b0) = nat pc"
    by auto
  let ?B1 = "batch_of (fst (last d1)) 0 (map snd d1)"
  let ?B2 = "batch_of (fst (last d2)) 0 (map snd d2)"
  from ingestAll_round[of b0 d1] b0 l1 obtain b1 where
    b1: "ingestAll d1 b0 = Inr b1" "unbatchedQueue b1 = []"
        "pendingBatches b1 = snd (push ?B1 (pendingBatches b0))" "opts b1 = ?os"
        "filter is_batch_ready (trace b1) =
           [Lore_batch_ready (batch_id ?B1) 20 (roundNumber (hd (map snd d1)))
              (roundNumber (last (map snd d1)))]"
    by auto
  from ingestAll_round[of b1 d2] b1 l2 obtain b2 where
    b2: "ingestAll d2 b1 = Inr b2" "unbatchedQueue b2 = []"
        "pendingBatches b2 = snd (push ?B2 (pendingBatches b1))" "opts b2 = ?os"
        "filter is_batch_ready (trace b2) =
           [Lore_batch_ready (batch_id ?B1) 20 (roundNumber (hd (map snd d1)))
              (roundNumber (last (map snd d1))),
            Lore_batch_ready (batch_id ?B2) 20 (roundNumber (hd (map snd d2)))
              (roundNumber (last (map snd d2)))]"
    by auto
  from ingestAll_fill[of b2 d3] b2 l3 obtain b3 where
    b3: "ingestAll d3 b2 = Inr b3" "unbatchedQueue b3 = map snd d3"
        "pendingBatches b3 = pendingBatches b2"
        "filter is_batch_ready (trace b3) = filter is_batch_ready (trace b2)"
    by auto
  have run: "ingestAll ds b0 = Inr b3"
    using b1(1) b2(1) b3(1) by (simp add: split ingestAll_append)
  have pend: "toArray (pendingBatches b3) = [?B1, ?B2]"
    using push_two[OF b0(5) b0(6), of ?B2 ?B1] b0(7) pc b1(3) b2(3) b3(3) by simp
  have ne: "d1 \<noteq> []" "d2 \<noteq> []" using l1 l2 by auto
  have h1: "hd d1 = ds ! 0" "last d1 = ds ! 19"
    using len l1 ne by (simp_all add: d1_def hd_conv_nth last_conv_nth)
  have h2: "hd d2 = ds ! 20" "last d2 = ds ! 39"
    using len l2 ne by (simp_all add: d2_def hd_conv_nth last_conv_nth)
  have m1: "map snd d1 = take 20 (map snd ds)" by (simp add: d1_def take_map)
  have m2: "map snd d2 = take 20 (drop 20 (map snd ds))" by (simp add: d2_def take_map drop_map)
  have m3: "map snd d3 = drop 40 (map snd ds)" by (simp add: d3_def drop_map)
  have ids: "batch_id ?B1 = \<lparr>fromRound = roundNumber (snd (ds ! 0)),
                toRound = roundNumber (snd (ds ! 19)), stamp = fst (ds ! 19) 0\<rparr>"
            "batch_id ?B2 = \<lparr>fromRound = roundNumber (snd (ds ! 20)),
                toRound = roundNumber (snd (ds ! 39)), stamp = fst (ds ! 39) 0\<rparr>"
    using ne h1 h2 by (simp_all add: batch_of_def hd_map last_map)
  have rds: "rounds ?B1 = take 20 (map snd ds)" "rounds ?B2 = take 20 (drop 20 (map snd ds))"
    using m1 m2 by (simp_all add: batch_of_def)
  have hl: "roundNumber (hd (map snd d1)) = roundNumber (snd (ds ! 0))"
           "roundNumber (last (map snd d1)) = roundNumber (snd (ds ! 19))"
           "roundNumber (hd (map snd d2)) = roundNumber (snd (ds ! 20))"
           "roundNumber (last (map snd d2)) = roundNumber (snd (ds ! 39))"
    using ne h1 h2 by (simp_all add: hd_map last_map)
  have tr: "filter is_batch_ready (trace b3) =
       [Lore_batch_ready \<lparr>fromRound = roundNumber (snd (ds ! 0)),
                          toRound = roundNumber (snd (ds ! 19)), stamp = fst (ds ! 19) 0\<rparr>
          20 (roundNumber (snd (ds ! 0))) (roundNumber (snd (ds ! 19))),
        Lore_batch_ready \<lparr>fromRound = roundNumber (snd (ds ! 20)),
                          toRound = roundNumber (snd (ds ! 39)), stamp = fst (ds ! 39) 0\<rparr>
          20 (roundNumber (snd (ds ! 20))) (roundNumber (snd (ds ! 39)))]"
    using b3(4) b2(5) ids hl by simp
  have q: "unbatchedQueue b3 = drop 40 (map snd ds)" "length (unbatchedQueue b3) = 5"
    using b3(2) m3 len by simp_all
  show ?thesis
    using b0(1) run pend ids rds tr q by (intro exI[of _ b0] exI[of _ b3]) simp
qed

theorem batcher_45_records_two_batches_witness:
  "(0::int) < 100 \<and> (2::int) \<le> 10 \<and>
   length (map (\<lambda>k. (\<lambda>i::nat. 1000 + int k,
                       \<lparr>roundNumber = int k + 1, ts = 0, receivedAt = 0, snapshot = ()\<rparr>))
               [0..<45]) = 45 \<and>
   (\<exists>b0 b.
      newLoreBatcher \<lparr>roundsCapacity = 100, batchSize = 20, pendingCapacity = 10\<rparr> = Inr b0 \<and>
      ingestAll (map (\<lambda>k. (\<lambda>i::nat. 1000 + int k,
                       \<lparr>roundNumber = int k + 1, ts = 0, receivedAt = 0, snapshot = ()\<rparr>))
                     [0..<45]) b0 = Inr b \<and>
      map (\<lambda>x. (fromRound x, toRound x)) (map batch_id (toArray (pendingBatches b))) =
        [(1, 20), (21, 40)] \<and>
      length (unbatchedQueue b) = 5)"
proof -
  let ?ds = "map (\<lambda>k. (\<lambda>i::nat. 1000 + int k,
                       \<lparr>roundNumber = int k + 1, ts = 0, receivedAt = 0, snapshot = ()\<rparr>))
                 [0..<45]"
  have h1: "(0::int) < 100" and h2: "(2::int) \<le> 10" and h3: "length ?ds = 45" by simp_all
  from batcher_45_records_two_batches[OF h1 h2 h3] obtain b0 b where
    r: "newLoreBatcher \<lparr>roundsCapacity = 100, batchSize = 20, pendingCapacity = 10\<rparr> = Inr b0"
       "ingestAll ?ds b0 = Inr b"
       "map batch_id (toArray (pendingBatches b)) =
          [\<lparr>fromRound = roundNumber (snd (?ds ! 0)), toRound = roundNumber (snd (?ds ! 19)),
            stamp = fst (?ds ! 19) 0\<rparr>,
           \<lparr>fromRound = roundNumber (snd (?ds ! 20)), toRound = roundNumber (snd (?ds ! 39)),
            stamp = fst (?ds ! 39) 0\<rparr>]"
       "length (unbatchedQueue b) = 5"
    by (elim exE conjE) (rule that, assumption+)
  have m: "map (\<lambda>x. (fromRound x, toRound x)) (map batch_id (toArray (pendingBatches b))) =
        [(1, 20), (21, 40)]"
    unfolding r(3) by simp
  show ?thesis
  proof (intro conjI exI)
    show "(0::int) < 100" by (rule h1)
    show "(2::int) \<le> 10" by (rule h2)
    show "length ?ds = 45" by (rule h3)
    show "newLoreBatcher \<lparr>roundsCapacity = 100, batchSize = 20, pendingCapacity = 10\<rparr> = Inr b0"
      by (rule r(1))
    show "ingestAll ?ds b0 = Inr b" by (rule r(2))
    show "map (\<lambda>x. (fromRound x, toRound x)) (map batch_id (toArray (pendingBatches b))) =
        [(1, 20), (21, 40)]" by (rule m)
    show "length (unbatchedQueue b) = 5" by (rule r(4))
  qed
qed

section \<open>The permit gate is a FIFO lock\<close>






























section \<open>What the marketing poster hands to the publisher\<close>

lemma enforceHardCap_length: "length (enforceHardCap text) \<le> 25000"
  by (simp add: enforceHardCap_def Let_def)

lemma postGenerated_posted:
  "posted (snd (postGenerated U cfg env ymd mp)) = posted mp \<or>
   (\<exists>draft. posted (snd (postGenerated U cfg env ymd mp)) = posted mp @ [enforceHardCap draft])"
  by (auto simp: postGenerated_def Let_def split: sum.splits prod.splits)

lemma generateAndPost_unfold:
  "snd (generateAndPost U cfg env force mp) = mp \<or>
   (\<exists>ymd. posted (snd (generateAndPost U cfg env force mp)) =
           posted (snd (postGenerated U cfg env ymd (mp\<lparr>inFlight := True, mp_lastError := None\<rparr>))))"
proof (cases "getMarketingPolicy cfg")
  case (Inl e)
  then show ?thesis by (simp add: generateAndPost_def)
next
  case (Inr p)
  show ?thesis
  proof (cases "localYmd env")
    case (Inl e)
    then show ?thesis using Inr by (simp add: generateAndPost_def)
  next
    case ymd: (Inr ymd)
    obtain r mp1 where pg:
      "postGenerated U cfg env ymd (mp\<lparr>inFlight := True, mp_lastError := None\<rparr>) = (r, mp1)"
      by (cases "postGenerated U cfg env ymd (mp\<lparr>inFlight := True, mp_lastError := None\<rparr>)")
    show ?thesis
    proof (cases "\<not> enabled p \<or> (\<not> force \<and> lastPostedYmd (stateCache mp) = Some ymd) \<or> inFlight mp")
      case True
      then show ?thesis using Inr ymd by (auto simp: generateAndPost_def)
    next
      case False
      then have "posted (snd (generateAndPost U cfg env force mp)) = posted mp1"
        using Inr ymd pg by (cases r) (auto simp: generateAndPost_def)
      then show ?thesis using pg by (intro disjI2 exI[of _ ymd]) simp
    qed
  qed
qed

lemma generateAndPost_posted:
  "posted (snd (generateAndPost U cfg env force mp)) = posted mp \<or>
   (\<exists>draft. posted (snd (generateAndPost U cfg env force mp)) = posted mp @ [enforceHardCap draft])"
proof -
  from generateAndPost_unfold[of U cfg env force mp] show ?thesis
  proof
    assume "snd (generateAndPost U cfg env force mp) = mp"
    then show ?thesis by simp
  next
    assume "\<exists>ymd. posted (snd (generateAndPost U cfg env force mp)) =
           posted (snd (postGenerated U cfg env ymd (mp\<lparr>inFlight := True, mp_lastError := None\<rparr>)))"
    then obtain ymd where "posted (snd (generateAndPost U cfg env force mp)) =
           posted (snd (postGenerated U cfg env ymd (mp\<lparr>inFlight := True, mp_lastError := None\<rparr>)))"
      by blast
    then show ?thesis
      using postGenerated_posted[of U cfg env ymd "mp\<lparr>inFlight := True, mp_lastError := None\<rparr>"]
      by auto
  qed
qed

text \<open>\<^verbatim>\<open>trim()\<close> leaves a text that begins and ends with something else than white space, or
  nothing.\<close>

lemma trim_empty_iff: "trim s = [] \<longleftrightarrow> (\<forall>c \<in> set s. isWhiteSpace c)"
proof -
  let ?t = "dropWhile isWhiteSpace s"
  have 1: "trim s = [] \<longleftrightarrow> (\<forall>c \<in> set ?t. isWhiteSpace c)"
    by (simp add: trim_def trimEnd_def trimStart_def dropWhile_eq_Nil_conv)
  have 2: "(\<forall>c \<in> set ?t. isWhiteSpace c) \<longleftrightarrow> ?t = []"
  proof
    assume a: "\<forall>c \<in> set ?t. isWhiteSpace c"
    show "?t = []"
    proof (rule ccontr)
      assume n: "?t \<noteq> []"
      then have "\<not> isWhiteSpace (hd ?t)" by (rule hd_dropWhile)
      moreover have "hd ?t \<in> set ?t" using n by (rule hd_in_set)
      ultimately show False using a by blast
    qed
  next
    assume e: "?t = []"
    show "\<forall>c \<in> set ?t. isWhiteSpace c" unfolding e by simp
  qed
  have 3: "?t = [] \<longleftrightarrow> (\<forall>c \<in> set s. isWhiteSpace c)"
    by (rule dropWhile_eq_Nil_conv)
  from 1 2 3 show ?thesis by blast
qed

lemma trimEnd_prefix: "s = trimEnd s @ rev (takeWhile isWhiteSpace (rev s))"
proof -
  have "rev (takeWhile isWhiteSpace (rev s) @ dropWhile isWhiteSpace (rev s)) = rev (rev s)"
    by (simp only: takeWhile_dropWhile_id)
  then have "rev (dropWhile isWhiteSpace (rev s)) @ rev (takeWhile isWhiteSpace (rev s)) = s"
    by (simp only: rev_append rev_rev_ident)
  then show ?thesis by (simp only: trimEnd_def)
qed

lemma hd_trim: assumes "trim s \<noteq> []" shows "\<not> isWhiteSpace (hd (trim s))"
proof -
  let ?t = "trimStart s"
  have ne: "?t \<noteq> []" using assms by (auto simp: trim_def trimEnd_def)
  then have h: "\<not> isWhiteSpace (hd ?t)"
    unfolding trimStart_def by (rule hd_dropWhile)
  have "hd ?t = hd (trimEnd ?t)"
    using trimEnd_prefix[of ?t] assms by (metis hd_append2 trim_def)
  then show ?thesis using h by (simp add: trim_def)
qed

lemma trim_id:
  assumes "s \<noteq> []" "\<not> isWhiteSpace (hd s)" "\<not> isWhiteSpace (last s)"
  shows "trim s = s"
proof -
  have 1: "trimStart s = s" using assms(1,2) by (cases s) (simp_all add: trimStart_def)
  have "dropWhile isWhiteSpace (rev s) = rev s"
    using assms(1,3) by (cases "rev s") (auto simp: last_rev[symmetric] simp del: last_rev)
  then have 2: "trimEnd s = s" by (simp add: trimEnd_def)
  show ?thesis by (simp add: trim_def 1 2)
qed

text \<open>The hard cap is the text trimmed and cut after 25000 code units, and it is not empty
  unless the draft is blank.\<close>

lemma enforceHardCap_take: "enforceHardCap d = take 25000 (trim d)"
  by (simp add: enforceHardCap_def Let_def)

lemma enforceHardCap_nonblank:
  assumes "trim d \<noteq> []" shows "trim (enforceHardCap d) \<noteq> []"
proof -
  have "hd (take 25000 (trim d)) = hd (trim d)" using assms by (cases "trim d") simp_all
  moreover have "take 25000 (trim d) \<noteq> []" using assms by simp
  ultimately have "hd (trim d) \<in> set (take 25000 (trim d))" by (metis hd_in_set)
  then show ?thesis
    using hd_trim[OF assms] by (auto simp: trim_empty_iff enforceHardCap_take)
qed

lemma generateAndPost_draft:
  assumes pol: "getMarketingPolicy cfg = Inr p" "enabled p"
    and ymd: "localYmd env = Inr ymd" "force \<or> lastPostedYmd (stateCache mp) \<noteq> Some ymd"
    and idle: "\<not> inFlight mp"
    and g: "generateMarketingTextWithRetries U cfg env = Inr (d, th)"
  shows "trim d \<noteq> [] \<Longrightarrow>
         posted (snd (generateAndPost U cfg env force mp)) = posted mp @ [take 25000 (trim d)]"
    and "trim d = [] \<Longrightarrow>
         posted (snd (generateAndPost U cfg env force mp)) = posted mp \<and>
         fst (generateAndPost U cfg env force mp) = Inl (Error ''marketing_empty_text'')"
proof -
  let ?mp = "mp\<lparr>inFlight := True, mp_lastError := None\<rparr>"
  show "posted (snd (generateAndPost U cfg env force mp)) = posted mp @ [take 25000 (trim d)]"
    if ne: "trim d \<noteq> []"
  proof -
    have "posted (snd (postGenerated U cfg env ymd ?mp)) = posted mp @ [take 25000 (trim d)]"
      using g enforceHardCap_nonblank[OF ne]
      by (simp add: postGenerated_def Let_def enforceHardCap_take split: sum.splits)
    then show ?thesis using pol ymd idle
      by (auto simp: generateAndPost_def split: sum.splits prod.splits)
  qed
  show "posted (snd (generateAndPost U cfg env force mp)) = posted mp \<and>
         fst (generateAndPost U cfg env force mp) = Inl (Error ''marketing_empty_text'')"
    if e: "trim d = []"
  proof -
    have "enforceHardCap d = []" by (simp add: enforceHardCap_take e)
    then have "trim (enforceHardCap d) = []" by (simp add: trim_def trimStart_def trimEnd_def)
    then have "postGenerated U cfg env ymd ?mp = (Inl (Error ''marketing_empty_text''), ?mp)"
      using g by (simp add: postGenerated_def Let_def)
    then show ?thesis using pol ymd idle
      by (auto simp: generateAndPost_def split: sum.splits prod.splits)
  qed
qed

text \<open>C10. Whatever the generator returns, every text that a call of \<^verbatim>\<open>generateAndPost\<close>
  hands to the short-form publisher has at most 25000 code units. And a draft is not
  dropped for its length: when the scheduler is enabled, nothing was posted today (or the
  call is forced), no other call is in flight and the generation gives the draft \<open>d\<close>, which
  is not blank, then the one text handed to the publisher is \<open>d\<close> trimmed and cut after its
  first 25000 code units.\<close>

theorem marketing_post_hard_cap:
  "(\<forall>t \<in> set (drop (length (posted mp)) (posted (snd (generateAndPost U cfg env force mp)))).
      length t \<le> 25000) \<and>
   (getMarketingPolicy cfg = Inr p \<and> enabled p \<and> localYmd env = Inr ymd \<and>
      (force \<or> lastPostedYmd (stateCache mp) \<noteq> Some ymd) \<and> \<not> inFlight mp \<and>
      generateMarketingTextWithRetries U cfg env = Inr (d, th) \<and> trim d \<noteq> []
    \<longrightarrow> posted (snd (generateAndPost U cfg env force mp)) =
           posted mp @ [take 25000 (trim d)])"
proof
  have cap: "enforceHardCap x = take 25000 (trim x)" for x
    by (simp add: enforceHardCap_def Let_def)
  have len: "length (enforceHardCap x) \<le> 25000" for x unfolding cap by simp
  show "\<forall>t \<in> set (drop (length (posted mp)) (posted (snd (generateAndPost U cfg env force mp)))).
      length t \<le> 25000"
    using generateAndPost_posted[of U cfg env force mp] len
    by auto
  show "getMarketingPolicy cfg = Inr p \<and> enabled p \<and> localYmd env = Inr ymd \<and>
      (force \<or> lastPostedYmd (stateCache mp) \<noteq> Some ymd) \<and> \<not> inFlight mp \<and>
      generateMarketingTextWithRetries U cfg env = Inr (d, th) \<and> trim d \<noteq> []
    \<longrightarrow> posted (snd (generateAndPost U cfg env force mp)) =
           posted mp @ [take 25000 (trim d)]"
  proof (intro impI, elim conjE)
    assume pol: "getMarketingPolicy cfg = Inr p" "enabled p"
      and ymd: "localYmd env = Inr ymd" "force \<or> lastPostedYmd (stateCache mp) \<noteq> Some ymd"
      and idle: "\<not> inFlight mp"
      and g: "generateMarketingTextWithRetries U cfg env = Inr (d, th)"
      and ne: "trim d \<noteq> []"
    have nb: "trim (take 25000 (trim d)) \<noteq> []"
      using enforceHardCap_nonblank[OF ne] by (simp add: enforceHardCap_take)
    have "posted (snd (postGenerated U cfg env ymd (mp\<lparr>inFlight := True, mp_lastError := None\<rparr>))) =
          posted mp @ [take 25000 (trim d)]"
      using g nb by (simp add: postGenerated_def Let_def cap split: sum.splits)
    then show "posted (snd (generateAndPost U cfg env force mp)) =
           posted mp @ [take 25000 (trim d)]"
      using pol ymd idle by (auto simp: generateAndPost_def split: sum.splits prod.splits)
  qed
qed

lemma example_validates: "validateMarketingText asciiTables exampleDraft = None"
  by code_simp

lemma example_posted:
  "posted (snd (generateAndPost asciiTables exampleConfig exampleEnv False examplePoster)) = [exampleDraft]"
  by code_simp

text \<open>A generator that gives the same draft at every attempt: the draft comes out of the
  two attempts, accepted or not.\<close>

lemma constant_draft:
  assumes "\<forall>attempt hint. draftText env attempt hint = Inr d"
  shows "marketingAttempts U env 1 2 [] None = Inr d"
  using assms by (simp add: numeral_2_eq_2 split: option.splits)

theorem marketing_post_hard_cap_witness:
  "length exampleLongDraft = 30002 \<and>
   enforceHardCap exampleLongDraft = [10022, 32] @ replicate 24998 97 \<and>
   posted (snd (generateAndPost asciiTables exampleConfig exampleEnvLong False examplePoster)) =
     [[10022, 32] @ replicate 24998 97] \<and>
   [10022, 32] @ replicate 24998 97 \<in>
     set (drop (length (posted examplePoster))
        (posted (snd (generateAndPost asciiTables exampleConfig exampleEnvLong False
                        examplePoster)))) \<and>
   length ([10022, 32] @ replicate 24998 (97::int)) \<le> 25000"
proof -
  let ?p = "\<lparr>enabled = True, timezone = js ''Europe/Warsaw'', baseMinutes = 1200,
            windowMinutes = 60, windowStartMinutes = 1170, windowEndMinutes = 1230,
            jitterMinutes = 15\<rparr>"
  have pol: "getMarketingPolicy exampleConfig = Inr ?p" "enabled ?p" by code_simp+
  have env: "localYmd exampleEnvLong = Inr (js ''2026-02-02'')"
    "nextThemeForPost exampleEnvLong = Inr (js ''theme-nearcon26'')"
    "\<forall>attempt hint. draftText exampleEnvLong attempt hint = Inr exampleLongDraft"
    by (simp_all add: exampleEnvLong_def exampleEnv_def)
  have mp: "False \<or> lastPostedYmd (stateCache examplePoster) \<noteq> Some (js ''2026-02-02'')"
    "\<not> inFlight examplePoster" "posted examplePoster = []"
    by code_simp+
  have g: "generateMarketingTextWithRetries asciiTables exampleConfig exampleEnvLong =
           Inr (exampleLongDraft, js ''theme-nearcon26'')"
    using pol(1) env(1,2) constant_draft[OF env(3), of asciiTables]
    by (simp add: generateMarketingTextWithRetries_def)
  have ws: "\<not> isWhiteSpace 10022" "\<not> isWhiteSpace 97" by (simp_all add: isWhiteSpace_def)
  have tr: "trim exampleLongDraft = exampleLongDraft"
    by (rule trim_id) (simp_all add: exampleLongDraft_def ws)
  have ne: "trim exampleLongDraft \<noteq> []" unfolding tr by (simp add: exampleLongDraft_def)
  have tk: "take 25000 (trim exampleLongDraft) = [10022, 32] @ replicate 24998 97"
    unfolding tr by (simp add: exampleLongDraft_def)
  have len: "length exampleLongDraft = 30002" by (simp add: exampleLongDraft_def)
  have cap: "enforceHardCap exampleLongDraft = [10022, 32] @ replicate 24998 97"
    using tr by (simp add: enforceHardCap_def Let_def exampleLongDraft_def)
  note t = marketing_post_hard_cap[of examplePoster asciiTables exampleConfig exampleEnvLong
      False ?p "js ''2026-02-02''" exampleLongDraft "js ''theme-nearcon26''"]
  from t pol env(1) mp(1,2) g ne
  have "posted (snd (generateAndPost asciiTables exampleConfig exampleEnvLong False examplePoster)) =
        posted examplePoster @ [take 25000 (trim exampleLongDraft)]"
    by blast
  then have 1: "posted (snd (generateAndPost asciiTables exampleConfig exampleEnvLong False
                   examplePoster)) = [[10022, 32] @ replicate 24998 97]"
    by (simp only: tk mp(3) append_Nil)
  have 2: "[10022, 32] @ replicate 24998 97 \<in>
     set (drop (length (posted examplePoster))
        (posted (snd (generateAndPost asciiTables exampleConfig exampleEnvLong False
                        examplePoster))))"
    unfolding 1 mp(3) by simp
  from t[THEN conjunct1] 2
  have 3: "length ([10022, 32] @ replicate 24998 (97::int)) \<le> 25000" by blast
  from len cap 1 2 3 show ?thesis by blast
qed

subsection \<open>Anti-repetition\<close>

lemma ngramGuard_hit:
  assumes "r \<in> set rs"
    and "(c1 \<noteq> [] \<and> c1 = firstLongWords U r 1) \<or> (c2 \<noteq> [] \<and> c2 = firstLongWords U r 2) \<or>
         (c4 \<noteq> [] \<and> c4 = firstLongWords U r 4)"
  shows "ngramGuard U c1 c2 c4 rs \<noteq> None"
  using assms
proof (induction rs)
  case Nil
  then show ?case by simp
next
  case (Cons a rs)
  show ?case
  proof (cases "r = a")
    case True
    then show ?thesis using Cons.prems(2) by (auto simp: Let_def)
  next
    case False
    then have "r \<in> set rs" using Cons.prems(1) by simp
    from Cons.IH[OF this Cons.prems(2)] have ih: "ngramGuard U c1 c2 c4 rs \<noteq> None" .
    have "ngramGuard U c1 c2 c4 (a # rs) = ngramGuard U c1 c2 c4 rs \<or>
          ngramGuard U c1 c2 c4 (a # rs) \<noteq> None"
      by (simp add: Let_def)
    with ih show ?thesis by auto
  qed
qed

lemma jaccardGuard_hit:
  assumes "r \<in> set rs" and "jaccard cSet (tokenSet U r stop) \<ge> 62 / 100"
  shows "jaccardGuard U cSet stop rs \<noteq> None"
  using assms
proof (induction rs)
  case Nil
  then show ?case by simp
next
  case (Cons a rs)
  show ?case
  proof (cases "r = a")
    case True
    then show ?thesis using Cons.prems(2) by (simp add: Let_def)
  next
    case False
    then have "r \<in> set rs" using Cons.prems(1) by simp
    from Cons.IH[OF this Cons.prems(2)] have ih: "jaccardGuard U cSet stop rs \<noteq> None" .
    have "jaccardGuard U cSet stop (a # rs) = jaccardGuard U cSet stop rs \<or>
          jaccardGuard U cSet stop (a # rs) \<noteq> None"
      by (simp add: Let_def)
    with ih show ?thesis by auto
  qed
qed

lemma isTooSimilarToRecent_rejects:
  assumes "trim c \<noteq> []" "r \<in> set rs"
    and "(firstLongWords U (trim c) 2 \<noteq> [] \<and>
            firstLongWords U (trim c) 2 = firstLongWords U r 2) \<or>
         (firstLongWords U (trim c) 1 \<noteq> [] \<and>
            firstLongWords U (trim c) 1 = firstLongWords U r 1) \<or>
         (firstLongWords U (trim c) 4 \<noteq> [] \<and>
            firstLongWords U (trim c) 4 = firstLongWords U r 4) \<or>
         jaccard (tokenSet U (trim c) stop) (tokenSet U r stop) \<ge> 62 / 100"
  shows "isTooSimilarToRecent U c rs stop \<noteq> None"
proof (cases "jaccard (tokenSet U (trim c) stop) (tokenSet U r stop) \<ge> 62 / 100")
  case True
  from jaccardGuard_hit[OF assms(2) True]
  show ?thesis using assms(1)
    by (auto simp: isTooSimilarToRecent_def Let_def split: option.splits)
next
  case False
  with assms(3) have
    "(firstLongWords U (trim c) 1 \<noteq> [] \<and> firstLongWords U (trim c) 1 = firstLongWords U r 1) \<or>
     (firstLongWords U (trim c) 2 \<noteq> [] \<and> firstLongWords U (trim c) 2 = firstLongWords U r 2) \<or>
     (firstLongWords U (trim c) 4 \<noteq> [] \<and> firstLongWords U (trim c) 4 = firstLongWords U r 4)"
    by blast
  from ngramGuard_hit[OF assms(2) this]
  show ?thesis using assms(1)
    by (auto simp: isTooSimilarToRecent_def Let_def split: option.splits)
qed

lemma last_draft_published:
  assumes pol: "getMarketingPolicy cfg = Inr p" "enabled p"
    and ymd: "localYmd env = Inr ymd" "force \<or> lastPostedYmd (stateCache mp) \<noteq> Some ymd"
    and idle: "\<not> inFlight mp"
    and th: "nextThemeForPost env = Inr th"
    and d1: "draftText env 1 None = Inr d1" "validateMarketingText U d1 = Some r1"
    and d2: "draftText env 2 (Some r1) = Inr d2" "trim (enforceHardCap d2) \<noteq> []"
  shows "posted (snd (generateAndPost U cfg env force mp)) = posted mp @ [enforceHardCap d2]"
proof -
  have "marketingAttempts U env 1 2 [] None = Inr d2"
    using d1 d2(1) by (simp add: numeral_2_eq_2 split: option.splits)
  then have g: "generateMarketingTextWithRetries U cfg env = Inr (d2, th)"
    using pol ymd th by (simp add: generateMarketingTextWithRetries_def)
  have "posted (snd (postGenerated U cfg env ymd (mp\<lparr>inFlight := True, mp_lastError := None\<rparr>))) =
        posted mp @ [enforceHardCap d2]"
    using g d2(2) by (simp add: postGenerated_def Let_def split: sum.splits)
  then show ?thesis using pol ymd idle
    by (auto simp: generateAndPost_def split: sum.splits prod.splits)
qed

text \<open>C3 on the code. The draft of the example opens with the two long words of the one post
  in the window of recent posts, so the anti-repetition check \<^verbatim>\<open>isTooSimilarToRecent\<close> refuses
  it against that window. The validation step does not call the check: it accepts the draft
  at the first attempt, and the draft is handed to the short-form publisher.\<close>

theorem marketing_validation_misses_anti_repetition:
  "exampleRecent \<in> set (take 10 (recentTexts (stateCache examplePoster))) \<and>
   firstLongWords asciiTables exampleDraft 2 = js ''forest oracle'' \<and>
   firstLongWords asciiTables exampleRecent 2 = js ''forest oracle'' \<and>
   isTooSimilarToRecent asciiTables exampleDraft
     (take 10 (recentTexts (stateCache examplePoster))) None = Some (Same_first_word (js ''forest'')) \<and>
   draftText exampleEnvOnce 1 None = Inr exampleDraft \<and>
   validateMarketingText asciiTables exampleDraft = None \<and>
   generateMarketingTextWithRetries asciiTables exampleConfig exampleEnvOnce =
     Inr (exampleDraft, js ''theme-nearcon26'') \<and>
   posted (snd (generateAndPost asciiTables exampleConfig exampleEnvOnce False examplePoster)) =
     [exampleDraft]"
  by code_simp
section \<open>The generation worker\<close>

subsection \<open>A tick drains the backlog\<close>

declare fireTick.simps [simp del]

lemma drainPending_head:
  assumes inv: "rb_inv (pendingBatches b)" and c: "contents (pendingBatches b) = batch # rest"
  shows "fst (drainPending 1 b) = [batch]"
    and "contents (pendingBatches (snd (drainPending 1 b))) = rest"
    and "rb_inv (pendingBatches (snd (drainPending 1 b)))"
    and "length_rb (pendingBatches (snd (drainPending 1 b))) = length rest"
proof -
  have f: "fst (drainPending 1 b) = fst (drain 1 (pendingBatches b))"
    and s: "pendingBatches (snd (drainPending 1 b)) = snd (drain 1 (pendingBatches b))"
    by (simp_all add: drainPending_def split: prod.splits)
  show "fst (drainPending 1 b) = [batch]"
    using drain_fst[OF inv, of 1] c by (simp add: f)
  show 2: "contents (pendingBatches (snd (drainPending 1 b))) = rest"
    using drain_contents[OF inv, of 1] c by (simp add: s)
  show "rb_inv (pendingBatches (snd (drainPending 1 b)))"
    using drain_inv[OF inv, of 1] by (simp add: s)
  show "length_rb (pendingBatches (snd (drainPending 1 b))) = length rest"
    using 2 length_contents[of "pendingBatches (snd (drainPending 1 b))"]
    by (simp add: length_rb_def)
qed

lemma drainPending_none:
  assumes inv: "rb_inv (pendingBatches b)" and c: "contents (pendingBatches b) = []"
  shows "fst (drainPending 1 b) = []"
    and "contents (pendingBatches (snd (drainPending 1 b))) = []"
    and "rb_inv (pendingBatches (snd (drainPending 1 b)))"
proof -
  have f: "fst (drainPending 1 b) = fst (drain 1 (pendingBatches b))"
    and s: "pendingBatches (snd (drainPending 1 b)) = snd (drain 1 (pendingBatches b))"
    by (simp_all add: drainPending_def split: prod.splits)
  show "fst (drainPending 1 b) = []"
    using drain_fst[OF inv, of 1] c by (simp add: f)
  show "contents (pendingBatches (snd (drainPending 1 b))) = []"
    using drain_contents[OF inv, of 1] c by (simp add: s)
  show "rb_inv (pendingBatches (snd (drainPending 1 b)))"
    using drain_inv[OF inv, of 1] by (simp add: s)
qed

lemma processBatch_idle: "\<not> busy (wstate (processBatch cfg env batch w))"
  by (simp add: processBatch_def finishCycle_def Let_def split: prod.splits option.splits)

lemma processBatch_unfold:
  "processBatch cfg env batch w =
     (case fst (cycle cfg env batch (startCycle batch w)) of
        None \<Rightarrow>
          (snd (cycle cfg env batch (startCycle batch w)))
            \<lparr>wstate := (wstate (snd (cycle cfg env batch (startCycle batch w))))\<lparr>busy := False\<rparr>\<rparr>
      | Some err \<Rightarrow>
          (snd (cycle cfg env batch (startCycle batch w)))
            \<lparr>wstate := (wstate (snd (cycle cfg env batch (startCycle batch w))))
                        \<lparr>lastError := Some err, busy := False\<rparr>,
             wtrace := wtrace (snd (cycle cfg env batch (startCycle batch w))) @
                       [Lore_worker_failed (batch_id batch) err]\<rparr>)"
  by (simp add: processBatch_def finishCycle_def Let_def split: prod.splits option.splits)

lemma touch_busy: "busy (wstate (touch now w)) = busy (wstate w)"
  by (simp add: touch_def)

lemma startCycle_touch_store: "store (startCycle batch (touch now w)) = store w"
  by (simp add: startCycle_def touch_def)

lemma processBatch_split:
  "processBatch cfg env batch w1 =
     (case buildLorePayload env batch
             (rev (take (maxSize (store w1)) (listNewestFirst (store w1)))) of
        Inl e \<Rightarrow> finishCycle batch (Some e) (startCycle batch w1)
      | Inr (payload, imagePrompt, ids) \<Rightarrow>
          finishCycle batch
            (fst (cycleRest cfg env batch payload imagePrompt ids (startCycle batch w1)))
            (snd (cycleRest cfg env batch payload imagePrompt ids (startCycle batch w1))))"
proof -
  have st: "store (startCycle batch w1) = store w1" by (simp add: startCycle_def)
  show ?thesis
    by (simp add: processBatch_def cycle_def st Let_def split: sum.splits prod.splits)
qed

lemma tickPrefix_head:
  assumes idle: "\<not> busy (wstate w)" and key: "nearAiApiKey cfg \<noteq> []"
    and inv: "rb_inv (pendingBatches b)" and c: "contents (pendingBatches b) = batch # rest"
  shows "tickPrefix cfg env k (b, w) =
         ((snd (drainPending 1 b), startCycle batch (touch (tickClock env) w)),
          (case buildLorePayload env batch
                  (rev (take (maxSize (store w)) (listNewestFirst (store w)))) of
             Inl e \<Rightarrow> BuildRaised batch e
           | Inr (payload, imagePrompt, ids) \<Rightarrow>
               Awaits \<lparr>sc_tick = k, sc_batch = batch, sc_payload = payload,
                       sc_imagePrompt = imagePrompt, sc_ids = ids\<rparr>))"
  using idle key drainPending_head(1)[OF inv c]
  by (simp add: tickPrefix_def touch_busy startCycle_touch_store Let_def
           split: sum.splits prod.splits)

text \<open>A tick that is called and not awaited, on an idle worker with a batch pending: when the
  payload cannot be built the whole cycle is over at once and the next tick is called; else
  the cycle waits.\<close>

lemma fireTick_head:
  assumes idle: "\<not> busy (wstate w)" and key: "nearAiApiKey cfg \<noteq> []"
    and inv: "rb_inv (pendingBatches b)" and c: "contents (pendingBatches b) = batch # rest"
  shows "fireTick cfg envs k (b, w) =
         (case buildLorePayload (envs k) batch
                 (rev (take (maxSize (store w)) (listNewestFirst (store w)))) of
            Inl e \<Rightarrow>
              if rest = []
              then ((snd (drainPending 1 b),
                     processBatch cfg (envs k) batch (touch (tickClock (envs k)) w)), None)
              else fireTick cfg envs (k + 1)
                     (snd (drainPending 1 b),
                      processBatch cfg (envs k) batch (touch (tickClock (envs k)) w))
          | Inr (payload, imagePrompt, ids) \<Rightarrow>
              ((snd (drainPending 1 b), startCycle batch (touch (tickClock (envs k)) w)),
               Some \<lparr>sc_tick = k, sc_batch = batch, sc_payload = payload,
                     sc_imagePrompt = imagePrompt, sc_ids = ids\<rparr>))"
proof -
  have st: "store (touch (tickClock (envs k)) w) = store w" by (simp add: touch_def)
  show ?thesis
    using drainPending_head(4)[OF inv c]
    by (subst fireTick.simps)
       (simp add: tickPrefix_head[OF idle key inv c] processBatch_split st Let_def
             split: sum.splits prod.splits)
qed

text \<open>The cycle that waits goes on to its end, and the next tick is called.\<close>

lemma resumeTick_head:
  assumes inv: "rb_inv (pendingBatches b)" and c: "contents (pendingBatches b) = batch # rest"
    and build: "buildLorePayload (envs k) batch
                  (rev (take (maxSize (store w)) (listNewestFirst (store w)))) =
                Inr (payload, imagePrompt, ids)"
  shows "resumeTick cfg envs
           \<lparr>sc_tick = k, sc_batch = batch, sc_payload = payload,
            sc_imagePrompt = imagePrompt, sc_ids = ids\<rparr>
           (snd (drainPending 1 b), startCycle batch (touch (tickClock (envs k)) w)) =
         (if rest = []
          then ((snd (drainPending 1 b),
                 processBatch cfg (envs k) batch (touch (tickClock (envs k)) w)), None)
          else fireTick cfg envs (k + 1)
                 (snd (drainPending 1 b),
                  processBatch cfg (envs k) batch (touch (tickClock (envs k)) w)))"
proof -
  have st: "store (touch (tickClock (envs k)) w) = store w" by (simp add: touch_def)
  show ?thesis
    using drainPending_head(4)[OF inv c] build
    by (simp add: resumeTick_def processBatch_split st Let_def split: prod.splits)
qed

text \<open>The state in which the promise of an awaited tick is settled: the cycle of the batch is
  over, and the next tick, if a batch is left, has been called and not awaited.\<close>

lemma tick_step:
  assumes idle: "\<not> busy (wstate w)" and key: "nearAiApiKey cfg \<noteq> []"
    and inv: "rb_inv (pendingBatches b)" and c: "contents (pendingBatches b) = batch # rest"
  shows "tick cfg envs k (b, w) =
         (if rest = []
          then ((snd (drainPending 1 b),
                 processBatch cfg (envs k) batch (touch (tickClock (envs k)) w)), None)
          else fireTick cfg envs (k + 1)
                 (snd (drainPending 1 b),
                  processBatch cfg (envs k) batch (touch (tickClock (envs k)) w)))"
proof (cases "buildLorePayload (envs k) batch
                (rev (take (maxSize (store w)) (listNewestFirst (store w))))")
  case (Inl e)
  then show ?thesis
    using fireTick_head[OF idle key inv c, of envs k]
    by (simp add: tick_def tickPrefix_head[OF idle key inv c])
next
  case (Inr x)
  obtain payload imagePrompt ids where x: "x = (payload, imagePrompt, ids)" by (cases x)
  show ?thesis
    using resumeTick_head[where cfg=cfg and envs=envs and k=k, OF inv c Inr[unfolded x]] Inr x
    by (simp add: tick_def tickPrefix_head[OF idle key inv c])
qed

text \<open>Awaited or not, a tick leaves the same work to the event loop.\<close>

lemma backgroundTicks_fireTick:
  assumes idle: "\<not> busy (wstate w)" and key: "nearAiApiKey cfg \<noteq> []"
    and inv: "rb_inv (pendingBatches b)" and c: "contents (pendingBatches b) = batch # rest"
  shows "backgroundTicks cfg envs (fireTick cfg envs k (b, w)) =
         backgroundTicks cfg envs (tick cfg envs k (b, w))"
proof (cases "buildLorePayload (envs k) batch
                (rev (take (maxSize (store w)) (listNewestFirst (store w))))")
  case (Inl e)
  then show ?thesis
    using fireTick_head[OF idle key inv c, of envs k] tick_step[OF idle key inv c, of envs k]
    by simp
next
  case (Inr x)
  obtain payload imagePrompt ids where x: "x = (payload, imagePrompt, ids)" by (cases x)
  show ?thesis
    using fireTick_head[OF idle key inv c, of envs k] Inr x
          resumeTick_head[where cfg=cfg and envs=envs and k=k, OF inv c Inr[unfolded x]]
          tick_step[OF idle key inv c, of envs k]
    by simp
qed

text \<open>The chain of ticks that one tick starts processes every pending batch, in order, and
  leaves the pending ring empty.\<close>

lemma tick_drains:
  assumes key: "nearAiApiKey cfg \<noteq> []"
  shows "\<not> busy (wstate w) \<Longrightarrow> rb_inv (pendingBatches b) \<Longrightarrow>
         contents (pendingBatches b) = batch # rest \<Longrightarrow>
         snd (backgroundTicks cfg envs (tick cfg envs k (b, w))) =
           processAll cfg envs k (batch # rest) w \<and>
         contents (pendingBatches (fst (backgroundTicks cfg envs (tick cfg envs k (b, w))))) = [] \<and>
         rb_inv (pendingBatches (fst (backgroundTicks cfg envs (tick cfg envs k (b, w)))))"
proof (induction rest arbitrary: b w k batch)
  case Nil
  note h = drainPending_head[OF Nil(2) Nil(3)]
  show ?case using tick_step[OF Nil(1) key Nil(2) Nil(3), of envs k] h by simp
next
  case (Cons nxt rest)
  note h = drainPending_head[OF Cons.prems(2) Cons.prems(3)]
  let ?b1 = "snd (drainPending 1 b)"
  let ?w5 = "processBatch cfg (envs k) batch (touch (tickClock (envs k)) w)"
  have idle5: "\<not> busy (wstate ?w5)" by (rule processBatch_idle)
  have t: "backgroundTicks cfg envs (tick cfg envs k (b, w)) =
           backgroundTicks cfg envs (tick cfg envs (k + 1) (?b1, ?w5))"
    using tick_step[OF Cons.prems(1) key Cons.prems(2) Cons.prems(3), of envs k]
          backgroundTicks_fireTick[OF idle5 key h(3) h(2), of envs "k + 1"]
    by simp
  from Cons.IH[OF idle5 h(3) h(2), of "k + 1"]
  show ?case unfolding t by simp
qed

text \<open>When a batch is left and its payload can be built, the promise of the tick is settled
  with the worker busy on that batch.\<close>

lemma tick_settles_busy:
  assumes idle: "\<not> busy (wstate w)" and key: "nearAiApiKey cfg \<noteq> []"
    and inv: "rb_inv (pendingBatches b)"
    and c: "contents (pendingBatches b) = batch # nxt # rest2"
    and build: "buildLorePayload (envs (k + 1)) nxt
                  (rev (take (maxSize (store (processBatch cfg (envs k) batch
                                                (touch (tickClock (envs k)) w))))
                         (listNewestFirst (store (processBatch cfg (envs k) batch
                                                    (touch (tickClock (envs k)) w)))))) =
                Inr (payload, imagePrompt, ids)"
  shows "tick cfg envs k (b, w) =
         ((snd (drainPending 1 (snd (drainPending 1 b))),
           startCycle nxt (touch (tickClock (envs (k + 1)))
              (processBatch cfg (envs k) batch (touch (tickClock (envs k)) w)))),
          Some \<lparr>sc_tick = k + 1, sc_batch = nxt, sc_payload = payload,
                sc_imagePrompt = imagePrompt, sc_ids = ids\<rparr>)"
proof -
  note h = drainPending_head[OF inv c]
  let ?b1 = "snd (drainPending 1 b)"
  let ?w5 = "processBatch cfg (envs k) batch (touch (tickClock (envs k)) w)"
  have idle5: "\<not> busy (wstate ?w5)" by (rule processBatch_idle)
  show ?thesis
    using tick_step[OF idle key inv c, of envs k]
          fireTick_head[OF idle5 key h(3) h(2), of envs "k + 1"] build
    by simp
qed

subsection \<open>The events of one cycle\<close>

lemma xattempts_Suc:
  "xNotificationAttempts env lore bid ids attempt (Suc k) lastErr =
     (case writeXNotificationFromLoreUnlocked env lore bid attempt ids of
        Inl e \<Rightarrow>
          (fst (xNotificationAttempts env lore bid ids (attempt + 1) k (Some e)),
           Call_writeXNotification bid attempt #
           snd (xNotificationAttempts env lore bid ids (attempt + 1) k (Some e)))
      | Inr text \<Rightarrow>
          if \<not> isValidXNotificationText text []
          then (fst (xNotificationAttempts env lore bid ids (attempt + 1) k lastErr),
                Call_writeXNotification bid attempt #
                snd (xNotificationAttempts env lore bid ids (attempt + 1) k lastErr))
          else (Inr text, [Call_writeXNotification bid attempt]))"
  by (simp add: Let_def split: prod.splits sum.splits)

declare xNotificationAttempts.simps(2) [simp del]

lemma xattempts_head:
  "\<exists>evs. snd (xNotificationAttempts env lore bid ids attempt (Suc k) lastErr) =
         Call_writeXNotification bid attempt # evs"
  by (auto simp: xattempts_Suc split: sum.splits)

lemma xattempts_only_calls:
  "e \<in> set (snd (xNotificationAttempts env lore bid ids attempt k lastErr)) \<Longrightarrow>
   \<exists>a. e = Call_writeXNotification bid a"
proof (induction k arbitrary: attempt lastErr)
  case 0
  then show ?case by simp
next
  case (Suc k)
  then show ?case
    by (auto simp: xattempts_Suc split: sum.splits if_splits)
qed

lemma xattempts_valid:
  "fst (xNotificationAttempts env lore bid ids attempt k lastErr) = Inr text \<Longrightarrow>
   isValidXNotificationText text []"
proof (induction k arbitrary: attempt lastErr)
  case 0
  then show ?case by simp
next
  case (Suc k)
  then show ?case
    by (auto simp: xattempts_Suc split: sum.splits if_splits)
qed

lemma xattempts_bounded:
  "length (snd (xNotificationAttempts env lore bid ids attempt k lastErr)) \<le> k"
proof (induction k arbitrary: attempt lastErr)
  case 0
  then show ?case by simp
next
  case (Suc k)
  have "length (snd (xNotificationAttempts env lore bid ids (attempt + 1) k le)) \<le> k" for le
    by (rule Suc.IH)
  then show ?case
    by (auto simp: xattempts_Suc split: sum.splits if_splits)
qed

lemma xattempts_first_ok:
  "writeXNotificationFromLoreUnlocked env lore bid attempt ids = Inr text \<Longrightarrow>
   isValidXNotificationText text [] \<Longrightarrow>
   xNotificationAttempts env lore bid ids attempt (Suc k) lastErr =
     (Inr text, [Call_writeXNotification bid attempt])"
  by (simp add: xattempts_Suc)

text \<open>The events of step 2.\<close>

lemma publishStep_trace:
  "\<exists>evs. wtrace (snd (publishStep cfg env batch lore xText imagePrompt w)) = wtrace w @ evs \<and>
         (\<forall>e \<in> set evs. e = Call_publishLoreThread (batch_id batch) \<or>
                         e = Published_lore_stored (batch_id batch) \<or>
                         (\<exists>text. xText = Some text \<and> e = Call_publishLoreToX (batch_id batch) text))"
  by (auto simp: publishStep_def Let_def split: sum.splits option.splits prod.splits)

lemma cycle_trace:
  "wtrace (snd (cycle cfg env batch w)) = wtrace w @ cycleEvents cfg env batch w"
proof -
  have "\<exists>evs. wtrace (snd (cycle cfg env batch w)) = wtrace w @ evs"
  proof (cases "buildLorePayload env batch (rev (take (maxSize (store w)) (listNewestFirst (store w))))")
    case (Inl e)
    then show ?thesis by (simp add: cycle_def cycleRest_def Let_def)
  next
    case (Inr x)
    obtain payload imagePrompt ids where x: "x = (payload, imagePrompt, ids)" by (cases x)
    obtain r evs where lc: "loreCycle cfg env (batch_id batch) payload ids = (r, evs)"
      by (cases "loreCycle cfg env (batch_id batch) payload ids")
    show ?thesis
    proof (cases r)
      case (Inl e)
      then show ?thesis using Inr x lc by (simp add: cycle_def cycleRest_def Let_def)
    next
      case r: (Inr y)
      obtain lore xText where y: "y = (lore, xText)" by (cases y)
      from publishStep_trace[of cfg env batch lore xText imagePrompt "w\<lparr>wtrace := wtrace w @ evs\<rparr>"]
      show ?thesis using Inr x lc r y by (auto simp: cycle_def cycleRest_def Let_def)
    qed
  qed
  then show ?thesis by (auto simp: cycleEvents_def)
qed

subsection \<open>The marketing window\<close>

lemma parseHHMM_range:
  "parseHHMM s = Inr tp \<Longrightarrow> 0 \<le> hour tp \<and> hour tp \<le> 23 \<and> 0 \<le> minute tp \<and> minute tp \<le> 59"
  by (auto simp: parseHHMM_def Let_def split: if_splits)

lemma mod_1440_cases:
  fixes x :: int
  assumes "- 1440 \<le> x" "x < 2880"
  shows "x mod 1440 = (if x < 0 then x + 1440 else if 1440 \<le> x then x - 1440 else x)"
proof -
  have 1: "x mod 1440 = x + 1440" if "x < 0"
  proof -
    have "x mod 1440 = (x + 1440) mod 1440" by simp
    also have "\<dots> = x + 1440" using that assms by (intro mod_pos_pos_trivial) auto
    finally show ?thesis .
  qed
  have 2: "x mod 1440 = x - 1440" if "1440 \<le> x"
  proof -
    have "x mod 1440 = (x - 1440) mod 1440" by simp
    also have "\<dots> = x - 1440" using that assms by (intro mod_pos_pos_trivial) auto
    finally show ?thesis .
  qed
  have 3: "x mod 1440 = x" if "0 \<le> x" "x < 1440"
    using that by (intro mod_pos_pos_trivial) auto
  show ?thesis using 1 2 3 by auto
qed

lemma circular_range_arith:
  fixes b h m :: int
  assumes "0 \<le> b" "b < 1440" "0 \<le> h" "h < 720" "0 \<le> m" "m < 1440"
  shows "isInCircularRange m ((b - h + 1440) mod 1440) ((b + h) mod 1440) \<longleftrightarrow>
         (\<exists>d. - h \<le> d \<and> d \<le> h \<and> m = (b + d) mod 1440)"
proof -
  have s: "(b - h + 1440) mod 1440 = (if b - h < 0 then b - h + 1440 else b - h)"
    using assms mod_1440_cases[of "b - h + 1440"] by auto
  have e: "(b + h) mod 1440 = (if 1440 \<le> b + h then b + h - 1440 else b + h)"
    using assms mod_1440_cases[of "b + h"] by auto
  show ?thesis
  proof
    assume r: "isInCircularRange m ((b - h + 1440) mod 1440) ((b + h) mod 1440)"
    define d where "d = (if m - b > h then m - b - 1440 else if m - b < - h then m - b + 1440 else m - b)"
    have "- h \<le> d \<and> d \<le> h"
      using r assms unfolding s e d_def isInCircularRange_def by (auto split: if_splits)
    moreover have "m = (b + d) mod 1440"
      using r assms mod_1440_cases[of "b + d"] unfolding s e d_def isInCircularRange_def
      by (auto split: if_splits)
    ultimately show "\<exists>d. - h \<le> d \<and> d \<le> h \<and> m = (b + d) mod 1440" by blast
  next
    assume "\<exists>d. - h \<le> d \<and> d \<le> h \<and> m = (b + d) mod 1440"
    then obtain d where d: "- h \<le> d" "d \<le> h" "m = (b + d) mod 1440" by blast
    have "(b + d) mod 1440 = (if b + d < 0 then b + d + 1440 else if 1440 \<le> b + d then b + d - 1440 else b + d)"
      using assms d(1,2) mod_1440_cases[of "b + d"] by auto
    then show "isInCircularRange m ((b - h + 1440) mod 1440) ((b + h) mod 1440)"
      using assms d unfolding s e isInCircularRange_def by (auto split: if_splits)
  qed
qed

lemma loreCycle_skip:
  assumes "writeLoreUnlocked env payload bid = Inr lore" "publishLoreToX cfg"
    "getMarketingPolicy cfg = Inr p" "enabled p" "localMinutesNow env = Inr m"
    "isInCircularRange m (windowStartMinutes p) (windowEndMinutes p)"
  shows "loreCycle cfg env bid payload ids =
         (Inr (lore, None),
          [Call_writeLore bid, X_publish_skipped_marketing_window bid ''marketing_window''])"
  using assms by (simp add: loreCycle_def isInMarketingWindowAt_def)

lemma loreCycle_proceed:
  assumes "writeLoreUnlocked env payload bid = Inr lore" "publishLoreToX cfg"
    "getMarketingPolicy cfg = Inr p" "nearAiApiKey cfg \<noteq> []"
    "\<not> enabled p \<or>
     (localMinutesNow env = Inr m \<and>
      \<not> isInCircularRange m (windowStartMinutes p) (windowEndMinutes p))"
  shows "loreCycle cfg env bid payload ids =
         (case fst (xNotificationAttempts env lore bid ids 1 4 None) of
            Inl e \<Rightarrow> Inl e | Inr text \<Rightarrow> Inr (lore, Some text),
          Call_writeLore bid # snd (xNotificationAttempts env lore bid ids 1 4 None))"
proof -
  have w: "(if enabled p then isInMarketingWindowAt cfg (localMinutesNow env) else Inr False)
           = Inr False"
    using assms(3,5) by (auto simp: isInMarketingWindowAt_def)
  show ?thesis using assms(1-4)
    by (simp add: loreCycle_def w split: prod.splits sum.splits)
qed

lemma cycle_after_build:
  assumes "buildLorePayload env batch
             (rev (take (maxSize (store w)) (listNewestFirst (store w)))) =
           Inr (payload, imagePrompt, ids)"
  shows "cycle cfg env batch w =
         (case loreCycle cfg env (batch_id batch) payload ids of
            (Inl e, evs) \<Rightarrow> (Some e, w\<lparr>wtrace := wtrace w @ evs\<rparr>)
          | (Inr (lore, xText), evs) \<Rightarrow>
              publishStep cfg env batch lore xText imagePrompt (w\<lparr>wtrace := wtrace w @ evs\<rparr>))"
  using assms by (simp add: cycle_def cycleRest_def Let_def)

lemma cycleEvents_skip:
  assumes b: "buildLorePayload env batch
             (rev (take (maxSize (store w)) (listNewestFirst (store w)))) =
           Inr (payload, imagePrompt, ids)"
    and l: "writeLoreUnlocked env payload (batch_id batch) = Inr lore" "publishLoreToX cfg"
    "getMarketingPolicy cfg = Inr p" "enabled p" "localMinutesNow env = Inr m"
    "isInCircularRange m (windowStartMinutes p) (windowEndMinutes p)"
  shows "X_publish_skipped_marketing_window (batch_id batch) ''marketing_window''
           \<in> set (cycleEvents cfg env batch w)"
    and "filter is_secondary (cycleEvents cfg env batch w) = []"
proof -
  let ?bid = "batch_id batch"
  let ?evs = "[Call_writeLore ?bid, X_publish_skipped_marketing_window ?bid ''marketing_window'']"
  have c: "cycle cfg env batch w =
           publishStep cfg env batch lore None imagePrompt (w\<lparr>wtrace := wtrace w @ ?evs\<rparr>)"
    by (simp add: cycle_after_build[OF b] loreCycle_skip[OF l])
  from publishStep_trace[of cfg env batch lore None imagePrompt "w\<lparr>wtrace := wtrace w @ ?evs\<rparr>"]
  obtain evs2 where t: "wtrace (snd (cycle cfg env batch w)) = wtrace w @ ?evs @ evs2"
    and o: "\<forall>e \<in> set evs2. e = Call_publishLoreThread ?bid \<or> e = Published_lore_stored ?bid"
    unfolding c by auto
  have ce: "cycleEvents cfg env batch w = ?evs @ evs2"
    using t by (simp add: cycleEvents_def)
  show "X_publish_skipped_marketing_window ?bid ''marketing_window''
           \<in> set (cycleEvents cfg env batch w)"
    unfolding ce by simp
  have "filter is_secondary evs2 = []"
    using o by (auto simp: filter_empty_conv is_secondary_def)
  then show "filter is_secondary (cycleEvents cfg env batch w) = []"
    unfolding ce by (simp add: is_secondary_def)
qed

lemma cycleEvents_proceed:
  assumes b: "buildLorePayload env batch
             (rev (take (maxSize (store w)) (listNewestFirst (store w)))) =
           Inr (payload, imagePrompt, ids)"
    and l: "writeLoreUnlocked env payload (batch_id batch) = Inr lore" "publishLoreToX cfg"
    "getMarketingPolicy cfg = Inr p" "nearAiApiKey cfg \<noteq> []"
    "\<not> enabled p \<or>
     (localMinutesNow env = Inr m \<and>
      \<not> isInCircularRange m (windowStartMinutes p) (windowEndMinutes p))"
  shows "Call_writeXNotification (batch_id batch) 1 \<in> set (cycleEvents cfg env batch w)"
    and "X_publish_skipped_marketing_window (batch_id batch) r \<notin> set (cycleEvents cfg env batch w)"
proof -
  let ?bid = "batch_id batch"
  let ?xa = "xNotificationAttempts env lore ?bid ids 1 4 None"
  let ?evs = "Call_writeLore ?bid # snd ?xa"
  obtain xevs where h: "snd ?xa = Call_writeXNotification ?bid 1 # xevs"
    using xattempts_head[of env lore ?bid ids 1 3 None] by (auto simp: numeral_eq_Suc)
  have calls_only: "\<forall>e \<in> set (snd ?xa). \<exists>a. e = Call_writeXNotification ?bid a"
    using xattempts_only_calls by blast
  have "\<exists>evs2. wtrace (snd (cycle cfg env batch w)) = wtrace w @ ?evs @ evs2 \<and>
          (\<forall>e \<in> set evs2. e = Call_publishLoreThread ?bid \<or> e = Published_lore_stored ?bid \<or>
                           (\<exists>text. e = Call_publishLoreToX ?bid text))"
  proof (cases "fst ?xa")
    case (Inl e)
    then show ?thesis
      by (simp add: cycle_after_build[OF b] loreCycle_proceed[OF l])
  next
    case (Inr xt)
    from publishStep_trace[of cfg env batch lore "Some xt" imagePrompt
        "w\<lparr>wtrace := wtrace w @ ?evs\<rparr>"]
    show ?thesis using Inr
      by (auto simp: cycle_after_build[OF b] loreCycle_proceed[OF l])
  qed
  then obtain evs2 where t: "wtrace (snd (cycle cfg env batch w)) = wtrace w @ ?evs @ evs2"
    and o: "\<forall>e \<in> set evs2. e = Call_publishLoreThread ?bid \<or> e = Published_lore_stored ?bid \<or>
                           (\<exists>text. e = Call_publishLoreToX ?bid text)"
    by blast
  have ce: "cycleEvents cfg env batch w = ?evs @ evs2"
    using t by (simp add: cycleEvents_def)
  show "Call_writeXNotification ?bid 1 \<in> set (cycleEvents cfg env batch w)"
    unfolding ce h by simp
  show "X_publish_skipped_marketing_window ?bid r \<notin> set (cycleEvents cfg env batch w)"
    unfolding ce using calls_only o by auto
qed

lemma marketing_window_is_base_plus_minus_half:
  assumes p: "getMarketingPolicy cfg = Inr p" and w: "windowMinutes p < 1440"
    and m: "0 \<le> m" "m < 1440"
  shows "isInCircularRange m (windowStartMinutes p) (windowEndMinutes p) \<longleftrightarrow>
         (\<exists>d. - (windowMinutes p div 2) \<le> d \<and> d \<le> windowMinutes p div 2 \<and>
              m = (baseMinutes p + d) mod 1440)"
proof -
  from p obtain tp where tp: "parseHHMM (marketingTime cfg) = Inr tp"
    by (auto simp: getMarketingPolicy_def split: sum.splits)
  note r = parseHHMM_range[OF tp]
  define b where "b = toMinutesSinceMidnight tp"
  define h where "h = max 0 (marketingWindowMinutes cfg) div 2"
  have pf: "baseMinutes p = b" "windowMinutes p = max 0 (marketingWindowMinutes cfg)"
    "windowStartMinutes p = js_rem (b - h + 1440) 1440" "windowEndMinutes p = js_rem (b + h) 1440"
    using p tp by (auto simp: getMarketingPolicy_def Let_def b_def h_def)
  have b: "0 \<le> b" "b < 1440" using r by (auto simp: b_def toMinutesSinceMidnight_def)
  have h: "0 \<le> h" "h < 720" "windowMinutes p div 2 = h" using w pf(2) by (auto simp: h_def)
  have s: "js_rem (b - h + 1440) 1440 = (b - h + 1440) mod 1440"
    and e: "js_rem (b + h) 1440 = (b + h) mod 1440"
    using b h by (auto simp: js_rem_def)
  show ?thesis
    unfolding pf(1) h(3) pf(3,4) s e
    by (rule circular_range_arith[OF b h(1,2) m])
qed

text \<open>C5, as the code has it. An idle worker with the key set runs a tick on the pending
  batch \<open>batch\<close>; the payload and the chronicle are produced and publication to the
  short-form channel is switched on. If the marketing scheduler is enabled and the local
  minute lies in the window of the policy, the cycle of the batch logs the skip with the
  reason \<^verbatim>\<open>marketing_window\<close> and calls neither the short-text generator nor the short-form
  publisher, and the batch is not tried again: it has left the pending ring, nothing is put
  back, and the chain of ticks processes every pending batch once. If the scheduler is
  disabled or the minute lies outside the window, the secondary step proceeds: the generator
  is called for attempt 1 and no skip is logged. For a window of less than a day, the
  minutes of the window are those at a distance of at most half the window width (rounded
  down) from the base minute, around the clock.\<close>

theorem marketing_window_skips_secondary_step:
  fixes envs :: "nat \<Rightarrow> 'p cycleEnv" and k :: nat
  assumes idle: "\<not> busy (wstate w)" and key: "nearAiApiKey cfg \<noteq> []"
    and inv: "rb_inv (pendingBatches b)" and c: "contents (pendingBatches b) = batch # rest"
    and build: "buildLorePayload (envs k) batch
             (rev (take (maxSize (store w)) (listNewestFirst (store w)))) =
           Inr (payload, imagePrompt, ids)"
    and lore: "writeLoreUnlocked (envs k) payload (batch_id batch) = Inr lore"
    and px: "publishLoreToX cfg"
    and pol: "getMarketingPolicy cfg = Inr p"
  defines "w2 \<equiv> startCycle batch (touch (tickClock (envs k)) w)"
  shows "(enabled p \<and> localMinutesNow (envs k) = Inr m \<and>
            isInCircularRange m (windowStartMinutes p) (windowEndMinutes p) \<longrightarrow>
          X_publish_skipped_marketing_window (batch_id batch) ''marketing_window''
            \<in> set (cycleEvents cfg (envs k) batch w2) \<and>
          filter is_secondary (cycleEvents cfg (envs k) batch w2) = [] \<and>
          contents (pendingBatches (snd (drainPending 1 b))) = rest \<and>
          snd (backgroundTicks cfg envs (tick cfg envs k (b, w))) =
            processAll cfg envs k (batch # rest) w) \<and>
         (\<not> enabled p \<or>
            (localMinutesNow (envs k) = Inr m \<and>
             \<not> isInCircularRange m (windowStartMinutes p) (windowEndMinutes p)) \<longrightarrow>
          Call_writeXNotification (batch_id batch) 1 \<in> set (cycleEvents cfg (envs k) batch w2) \<and>
          (\<forall>r. X_publish_skipped_marketing_window (batch_id batch) r
                 \<notin> set (cycleEvents cfg (envs k) batch w2))) \<and>
         (windowMinutes p < 1440 \<and> 0 \<le> m \<and> m < 1440 \<longrightarrow>
          (isInCircularRange m (windowStartMinutes p) (windowEndMinutes p) \<longleftrightarrow>
           (\<exists>d. - (windowMinutes p div 2) \<le> d \<and> d \<le> windowMinutes p div 2 \<and>
                m = (baseMinutes p + d) mod 1440)))"
proof (intro conjI impI allI)
  have st: "store w2 = store w" by (simp add: w2_def startCycle_def touch_def)
  have build2: "buildLorePayload (envs k) batch
             (rev (take (maxSize (store w2)) (listNewestFirst (store w2)))) =
           Inr (payload, imagePrompt, ids)"
    unfolding st by (rule build)
  {
    assume h: "enabled p \<and> localMinutesNow (envs k) = Inr m \<and>
            isInCircularRange m (windowStartMinutes p) (windowEndMinutes p)"
    then have h': "enabled p" "localMinutesNow (envs k) = Inr m"
      "isInCircularRange m (windowStartMinutes p) (windowEndMinutes p)" by auto
    show "X_publish_skipped_marketing_window (batch_id batch) ''marketing_window''
            \<in> set (cycleEvents cfg (envs k) batch w2)"
      by (rule cycleEvents_skip(1)[OF build2 lore px pol h'])
    show "filter is_secondary (cycleEvents cfg (envs k) batch w2) = []"
      by (rule cycleEvents_skip(2)[OF build2 lore px pol h'])
    show "contents (pendingBatches (snd (drainPending 1 b))) = rest"
      by (rule drainPending_head(2)[OF inv c])
    show "snd (backgroundTicks cfg envs (tick cfg envs k (b, w))) =
            processAll cfg envs k (batch # rest) w"
      using tick_drains[OF key idle inv c, of envs k] by blast
  }
  {
    assume h: "\<not> enabled p \<or>
            (localMinutesNow (envs k) = Inr m \<and>
             \<not> isInCircularRange m (windowStartMinutes p) (windowEndMinutes p))"
    show "Call_writeXNotification (batch_id batch) 1 \<in> set (cycleEvents cfg (envs k) batch w2)"
      by (rule cycleEvents_proceed(1)[OF build2 lore px pol key h])
    fix r
    show "X_publish_skipped_marketing_window (batch_id batch) r
                 \<notin> set (cycleEvents cfg (envs k) batch w2)"
      by (rule cycleEvents_proceed(2)[OF build2 lore px pol key h])
  }
  {
    assume "windowMinutes p < 1440 \<and> 0 \<le> m \<and> m < 1440"
    then show "isInCircularRange m (windowStartMinutes p) (windowEndMinutes p) \<longleftrightarrow>
           (\<exists>d. - (windowMinutes p div 2) \<le> d \<and> d \<le> windowMinutes p div 2 \<and>
                m = (baseMinutes p + d) mod 1440)"
      using marketing_window_is_base_plus_minus_half[OF pol] by blast
  }
qed

theorem marketing_window_skips_secondary_step_witness:
  "\<not> busy (wstate exampleCore) \<and> publishLoreToX exampleConfig \<and>
   nearAiApiKey exampleConfig \<noteq> [] \<and> rb_inv (pendingBatches exampleBatcher) \<and>
   isInCircularRange 1200 1170 1230 \<and> \<not> isInCircularRange 1231 1170 1230 \<and>
   X_publish_skipped_marketing_window (batch_id exampleBatch) ''marketing_window''
     \<in> set (cycleEvents exampleConfig exampleCycleEnv exampleBatch
                (startCycle exampleBatch (touch (tickClock exampleCycleEnv) exampleCore))) \<and>
   filter is_secondary
     (cycleEvents exampleConfig exampleCycleEnv exampleBatch
        (startCycle exampleBatch (touch (tickClock exampleCycleEnv) exampleCore))) = [] \<and>
   length (contents (pendingBatches (snd (drainPending 1 exampleBatcher)))) = 2 \<and>
   Call_writeXNotification (batch_id exampleBatch) 1
     \<in> set (cycleEvents exampleConfig (exampleCycleEnv\<lparr>localMinutesNow := Inr 1231\<rparr>)
                exampleBatch
                (startCycle exampleBatch
                   (touch (tickClock (exampleCycleEnv\<lparr>localMinutesNow := Inr 1231\<rparr>))
                      exampleCore))) \<and>
   \<not> marketingEnabled (exampleConfig\<lparr>marketingEnabled := False\<rparr>) \<and>
   Call_writeXNotification (batch_id exampleBatch) 1
     \<in> set (cycleEvents (exampleConfig\<lparr>marketingEnabled := False\<rparr>) exampleCycleEnv
                exampleBatch
                (startCycle exampleBatch (touch (tickClock exampleCycleEnv) exampleCore))) \<and>
   (\<exists>d::int. - 30 \<le> d \<and> d \<le> 30 \<and> 1200 = (1200 + d) mod 1440)"
proof -
  let ?cfgD = "exampleConfig\<lparr>marketingEnabled := False\<rparr>"
  let ?pD = "\<lparr>enabled = False, timezone = js ''Europe/Warsaw'', baseMinutes = 1200,
            windowMinutes = 60, windowStartMinutes = 1170, windowEndMinutes = 1230,
            jitterMinutes = 15\<rparr>"
  let ?p = "\<lparr>enabled = True, timezone = js ''Europe/Warsaw'', baseMinutes = 1200,
            windowMinutes = 60, windowStartMinutes = 1170, windowEndMinutes = 1230,
            jitterMinutes = 15\<rparr>"
  let ?env2 = "exampleCycleEnv\<lparr>localMinutesNow := Inr 1231\<rparr>"
  let ?B2 = "exampleBatch\<lparr>batch_id := \<lparr>fromRound = 21, toRound = 40, stamp = 2000\<rparr>\<rparr>"
  let ?B3 = "exampleBatch\<lparr>batch_id := \<lparr>fromRound = 41, toRound = 60, stamp = 3000\<rparr>\<rparr>"
  let ?mem = "rev (take (maxSize (store exampleCore)) (listNewestFirst (store exampleCore)))"
  have a: "\<not> busy (wstate exampleCore)" "nearAiApiKey exampleConfig \<noteq> []"
    "rb_inv (pendingBatches exampleBatcher)"
    by code_simp+
  have c: "contents (pendingBatches exampleBatcher) = exampleBatch # [?B2, ?B3]"
    by (simp add: contents_def exampleBatcher_def upt_rec)
  have e1: "buildLorePayload exampleCycleEnv exampleBatch ?mem =
             Inr (js ''payload'', js ''prompt'', [js ''alice.near''])"
    "writeLoreUnlocked exampleCycleEnv (js ''payload'') (batch_id exampleBatch) =
       Inr (js ''The forest remembers.'')"
    by code_simp+
  have e2: "buildLorePayload ?env2 exampleBatch ?mem =
             Inr (js ''payload'', js ''prompt'', [js ''alice.near''])"
    "writeLoreUnlocked ?env2 (js ''payload'') (batch_id exampleBatch) =
       Inr (js ''The forest remembers.'')"
    by code_simp+
  have g: "publishLoreToX exampleConfig" "getMarketingPolicy exampleConfig = Inr ?p"
    by code_simp+
  have i: "enabled ?p \<and> localMinutesNow exampleCycleEnv = Inr 1200 \<and>
          isInCircularRange 1200 (windowStartMinutes ?p) (windowEndMinutes ?p)"
    by code_simp
  have o: "\<not> enabled ?p \<or> (localMinutesNow ?env2 = Inr 1231 \<and>
          \<not> isInCircularRange 1231 (windowStartMinutes ?p) (windowEndMinutes ?p))"
    by code_simp
  have r: "isInCircularRange 1200 1170 1230" "\<not> isInCircularRange 1231 1170 1230"
    by code_simp+
  have w: "windowMinutes ?p < 1440 \<and> (0::int) \<le> 1200 \<and> (1200::int) < 1440"
    by simp
  note t1 = marketing_window_skips_secondary_step[of exampleCore exampleConfig exampleBatcher
      exampleBatch "[?B2, ?B3]" "\<lambda>i. exampleCycleEnv" 0, OF a c e1 g, of 1200]
  note t2 = marketing_window_skips_secondary_step[of exampleCore exampleConfig exampleBatcher
      exampleBatch "[?B2, ?B3]" "\<lambda>i. ?env2" 0, OF a c e2 g, of 1231]
  from t1 i
  have 1: "X_publish_skipped_marketing_window (batch_id exampleBatch) ''marketing_window''
     \<in> set (cycleEvents exampleConfig exampleCycleEnv exampleBatch
                (startCycle exampleBatch (touch (tickClock exampleCycleEnv) exampleCore)))"
    "filter is_secondary
     (cycleEvents exampleConfig exampleCycleEnv exampleBatch
        (startCycle exampleBatch (touch (tickClock exampleCycleEnv) exampleCore))) = []"
    "contents (pendingBatches (snd (drainPending 1 exampleBatcher))) = [?B2, ?B3]"
    by blast+
  from t2 o
  have 2: "Call_writeXNotification (batch_id exampleBatch) 1
     \<in> set (cycleEvents exampleConfig ?env2 exampleBatch
                (startCycle exampleBatch (touch (tickClock ?env2) exampleCore)))"
    by blast
  have aD: "nearAiApiKey ?cfgD \<noteq> []" "\<not> marketingEnabled ?cfgD" by code_simp+
  have gD: "publishLoreToX ?cfgD" "getMarketingPolicy ?cfgD = Inr ?pD" by code_simp+
  have oD: "\<not> enabled ?pD \<or> (localMinutesNow exampleCycleEnv = Inr 1200 \<and>
          \<not> isInCircularRange 1200 (windowStartMinutes ?pD) (windowEndMinutes ?pD))"
    by simp
  note t3 = marketing_window_skips_secondary_step[of exampleCore ?cfgD exampleBatcher
      exampleBatch "[?B2, ?B3]" "\<lambda>i. exampleCycleEnv" 0, OF a(1) aD(1) a(3) c e1 gD, of 1200]
  from t3 oD
  have 4: "Call_writeXNotification (batch_id exampleBatch) 1
     \<in> set (cycleEvents ?cfgD exampleCycleEnv exampleBatch
                (startCycle exampleBatch (touch (tickClock exampleCycleEnv) exampleCore)))"
    by blast
  from t1 w r(1)
  have "\<exists>d. - (windowMinutes ?p div 2) \<le> d \<and> d \<le> windowMinutes ?p div 2 \<and>
            1200 = (baseMinutes ?p + d) mod 1440"
    by simp
  then have 3: "\<exists>d::int. - 30 \<le> d \<and> d \<le> 30 \<and> 1200 = (1200 + d) mod 1440" by simp
  have l: "length (contents (pendingBatches (snd (drainPending 1 exampleBatcher)))) = 2"
    unfolding 1(3) by simp
  have evaluated:
    "X_publish_skipped_marketing_window (batch_id exampleBatch) ''marketing_window''
     \<in> set (cycleEvents exampleConfig exampleCycleEnv exampleBatch
                (startCycle exampleBatch (touch (tickClock exampleCycleEnv) exampleCore)))"
    "filter is_secondary
     (cycleEvents exampleConfig exampleCycleEnv exampleBatch
        (startCycle exampleBatch (touch (tickClock exampleCycleEnv) exampleCore))) = []"
    "Call_writeXNotification (batch_id exampleBatch) 1
     \<in> set (cycleEvents exampleConfig ?env2 exampleBatch
                (startCycle exampleBatch (touch (tickClock ?env2) exampleCore)))"
    "Call_writeXNotification (batch_id exampleBatch) 1
     \<in> set (cycleEvents ?cfgD exampleCycleEnv exampleBatch
                (startCycle exampleBatch (touch (tickClock exampleCycleEnv) exampleCore)))"
    by code_simp+
  from a g(1) r 1(1,2) l 2 3 aD(2) 4 evaluated show ?thesis by blast
qed

text \<open>C5 as stated fails, in two ways. With the marketing scheduler disabled the time of the
  example lies inside the window, and the cycle generates and publishes the secondary text.
  With the scheduler enabled and a window of 1440 minutes around 20:00, the policy has the
  one minute 08:00 as its window; at 20:00, the base minute itself, the cycle generates and
  publishes the secondary text as well.\<close>

theorem marketing_window_not_skipped_counterexample:
  "publishLoreToX (exampleConfig\<lparr>marketingEnabled := False\<rparr>) \<and>
   isInMarketingWindowAt (exampleConfig\<lparr>marketingEnabled := False\<rparr>)
     (localMinutesNow exampleCycleEnv) = Inr True \<and>
   cycleEvents (exampleConfig\<lparr>marketingEnabled := False\<rparr>) exampleCycleEnv exampleBatch
     exampleCore =
     [Call_writeLore (batch_id exampleBatch),
      Call_writeXNotification (batch_id exampleBatch) 1,
      Call_publishLoreThread (batch_id exampleBatch),
      Published_lore_stored (batch_id exampleBatch),
      Call_publishLoreToX (batch_id exampleBatch) (js ''hello'')] \<and>
   publishLoreToX (exampleConfig\<lparr>marketingWindowMinutes := 1440\<rparr>) \<and>
   getMarketingPolicy (exampleConfig\<lparr>marketingWindowMinutes := 1440\<rparr>) =
     Inr \<lparr>enabled = True, timezone = js ''Europe/Warsaw'', baseMinutes = 1200,
          windowMinutes = 1440, windowStartMinutes = 480, windowEndMinutes = 480,
          jitterMinutes = 15\<rparr> \<and>
   localMinutesNow exampleCycleEnv = Inr 1200 \<and>
   - (1440 div 2) \<le> (0::int) \<and> (0::int) \<le> 1440 div 2 \<and> (1200::int) = (1200 + 0) mod 1440 \<and>
   cycleEvents (exampleConfig\<lparr>marketingWindowMinutes := 1440\<rparr>) exampleCycleEnv exampleBatch
     exampleCore =
     [Call_writeLore (batch_id exampleBatch),
      Call_writeXNotification (batch_id exampleBatch) 1,
      Call_publishLoreThread (batch_id exampleBatch),
      Published_lore_stored (batch_id exampleBatch),
      Call_publishLoreToX (batch_id exampleBatch) (js ''hello'')]"
  by code_simp

subsection \<open>The continuity store\<close>

lemma loreCycle_lore:
  "loreCycle cfg env bid payload ids = (Inr (lore, xText), evs) \<Longrightarrow>
   writeLoreUnlocked env payload bid = Inr lore"
  by (auto simp: loreCycle_def split: sum.splits if_splits bool.splits prod.splits)

lemma publishStep_store:
  assumes "fst (publishStep cfg env batch lore xText imagePrompt w) = None"
    and "publishLoreToNearSocial cfg"
  shows "\<exists>entry. store (snd (publishStep cfg env batch lore xText imagePrompt w)) =
                    store_push entry (store w) \<and>
                 entry_batchId entry = batch_id batch \<and> entry_text entry = lore"
  using assms
  by (auto simp: publishStep_def Let_def split: sum.splits option.splits if_splits)

lemma cycle_store:
  assumes ok: "fst (cycle cfg env batch w) = None" and near: "publishLoreToNearSocial cfg"
  shows "\<exists>entry payload. store (snd (cycle cfg env batch w)) = store_push entry (store w) \<and>
            entry_batchId entry = batch_id batch \<and>
            writeLoreUnlocked env payload (batch_id batch) = Inr (entry_text entry)"
proof (cases "buildLorePayload env batch (rev (take (maxSize (store w)) (listNewestFirst (store w))))")
  case (Inl e)
  then show ?thesis using ok by (simp add: cycle_def cycleRest_def Let_def)
next
  case (Inr x)
  obtain payload imagePrompt ids where x: "x = (payload, imagePrompt, ids)" by (cases x)
  obtain r evs where lc: "loreCycle cfg env (batch_id batch) payload ids = (r, evs)"
    by (cases "loreCycle cfg env (batch_id batch) payload ids")
  show ?thesis
  proof (cases r)
    case (Inl e)
    then show ?thesis using Inr x lc ok by (simp add: cycle_def cycleRest_def Let_def)
  next
    case r: (Inr y)
    obtain lore xText where y: "y = (lore, xText)" by (cases y)
    have c: "cycle cfg env batch w =
             publishStep cfg env batch lore xText imagePrompt (w\<lparr>wtrace := wtrace w @ evs\<rparr>)"
      using Inr x lc r y by (simp add: cycle_def cycleRest_def Let_def)
    have l: "writeLoreUnlocked env payload (batch_id batch) = Inr lore"
      using loreCycle_lore lc r y by blast
    from publishStep_store[of cfg env batch lore xText imagePrompt "w\<lparr>wtrace := wtrace w @ evs\<rparr>"]
      ok near c l
    show ?thesis by auto
  qed
qed

lemma processBatch_ok:
  "lastError (wstate (processBatch cfg env batch w)) = None \<Longrightarrow>
   fst (cycle cfg env batch (startCycle batch w)) = None"
  by (auto simp: processBatch_unfold split: option.splits)

lemma processBatch_store:
  "store (processBatch cfg env batch w) = store (snd (cycle cfg env batch (startCycle batch w)))"
  by (auto simp: processBatch_unfold split: option.splits)

lemma startCycle_store: "store (startCycle batch w) = store w"
  by (simp add: startCycle_def)

text \<open>C6, as the code has it. When publication of the chronicle to the long-form channel is
  switched on, a batch that is processed without an error leaves the continuity store with
  one more entry at its newest end, for this batch and with the generated chronicle as its
  text; a full store has dropped its oldest entry, so the store never holds more than its
  capacity (10 for the store of the program); and the worker is Idle again.\<close>

theorem continuity_store_appended_when_published:
  assumes "publishLoreToNearSocial cfg" and "rb_inv (store w)"
    and "lastError (wstate (processBatch cfg env batch w)) = None"
  shows "\<exists>entry payload.
           toArray (store (processBatch cfg env batch w)) =
             (if length (toArray (store w)) = capacity (store w)
              then tl (toArray (store w)) else toArray (store w)) @ [entry] \<and>
           entry_batchId entry = batch_id batch \<and>
           writeLoreUnlocked env payload (batch_id batch) = Inr (entry_text entry) \<and>
           length (toArray (store (processBatch cfg env batch w))) \<le> capacity (store w) \<and>
           capacity (store (processBatch cfg env batch w)) = capacity (store w) \<and>
           rb_inv (store (processBatch cfg env batch w)) \<and>
           \<not> busy (wstate (processBatch cfg env batch w))"
proof -
  from cycle_store[OF processBatch_ok[OF assms(3)] assms(1)]
  obtain entry payload where
    s: "store (processBatch cfg env batch w) = store_push entry (store w)"
    and e: "entry_batchId entry = batch_id batch"
       "writeLoreUnlocked env payload (batch_id batch) = Inr (entry_text entry)"
    by (auto simp: processBatch_store startCycle_store)
  have inv': "rb_inv (store_push entry (store w))"
    unfolding store_push_def using assms(2) by (rule push_inv)
  have cap: "capacity (store_push entry (store w)) = capacity (store w)"
    by (simp add: store_push_def push_capacity)
  have c0: "contents (store_push entry (store w)) =
           (if size_rb (store w) = capacity (store w)
            then tl (contents (store w)) else contents (store w)) @ [entry]"
    unfolding store_push_def by (rule push_contents[OF assms(2)])
  have c: "toArray (store_push entry (store w)) =
           (if length (toArray (store w)) = capacity (store w)
            then tl (toArray (store w)) else toArray (store w)) @ [entry]"
    by (simp only: toArray_contents[OF inv'] toArray_contents[OF assms(2)] length_contents c0)
  have len: "length (toArray (store_push entry (store w))) \<le> capacity (store w)"
    using inv' cap by (simp add: toArray_contents[OF inv'] length_contents rb_inv_def)
  have 1: "toArray (store (processBatch cfg env batch w)) =
             (if length (toArray (store w)) = capacity (store w)
              then tl (toArray (store w)) else toArray (store w)) @ [entry]"
    by (simp only: s c)
  have 2: "length (toArray (store (processBatch cfg env batch w))) \<le> capacity (store w)"
    by (simp only: s len)
  have 3: "capacity (store (processBatch cfg env batch w)) = capacity (store w)"
    by (simp only: s cap)
  have 4: "rb_inv (store (processBatch cfg env batch w))"
    by (simp only: s inv')
  have 5: "\<not> busy (wstate (processBatch cfg env batch w))"
    by (rule processBatch_idle)
  from 1 e 2 3 4 5 show ?thesis by blast
qed

theorem continuity_store_appended_when_published_witness:
  "publishLoreToNearSocial exampleConfig \<and> rb_inv (store exampleCore) \<and>
   lastError (wstate (processBatch exampleConfig exampleCycleEnv exampleBatch exampleCore)) = None \<and>
   map entry_text (toArray (store (processBatch exampleConfig exampleCycleEnv exampleBatch exampleCore)))
     = [js ''The forest remembers.'']"
proof -
  have a: "publishLoreToNearSocial exampleConfig" "rb_inv (store exampleCore)"
    "lastError (wstate (processBatch exampleConfig exampleCycleEnv exampleBatch exampleCore)) = None"
    by code_simp+
  have e: "toArray (store exampleCore) = []" by code_simp
  have w: "writeLoreUnlocked exampleCycleEnv payload bid = Inr t \<Longrightarrow> t = js ''The forest remembers.''"
    for payload bid t by (simp add: exampleCycleEnv_def)
  from continuity_store_appended_when_published[OF a]
  obtain entry payload where
    "toArray (store (processBatch exampleConfig exampleCycleEnv exampleBatch exampleCore)) =
             (if length (toArray (store exampleCore)) = capacity (store exampleCore)
              then tl (toArray (store exampleCore)) else toArray (store exampleCore)) @ [entry]"
    "writeLoreUnlocked exampleCycleEnv payload (batch_id exampleBatch) = Inr (entry_text entry)"
    by blast
  then have "map entry_text (toArray (store (processBatch exampleConfig exampleCycleEnv exampleBatch
      exampleCore))) = [js ''The forest remembers.'']"
    using w[of payload "batch_id exampleBatch" "entry_text entry"] by (simp add: e)
  with a show ?thesis by blast
qed

text \<open>C6 as stated fails: with publication to the long-form channel switched off the cycle
  of the example succeeds, the chronicle was generated, and the store stays empty.\<close>

theorem continuity_store_untouched_without_publication_counterexample:
  "lastError (wstate (processBatch (exampleConfig\<lparr>publishLoreToNearSocial := False\<rparr>)
      exampleCycleEnv exampleBatch exampleCore)) = None \<and>
   \<not> busy (wstate (processBatch (exampleConfig\<lparr>publishLoreToNearSocial := False\<rparr>)
      exampleCycleEnv exampleBatch exampleCore)) \<and>
   Call_writeLore (batch_id exampleBatch)
     \<in> set (wtrace (processBatch (exampleConfig\<lparr>publishLoreToNearSocial := False\<rparr>)
      exampleCycleEnv exampleBatch exampleCore)) \<and>
   toArray (store (processBatch (exampleConfig\<lparr>publishLoreToNearSocial := False\<rparr>)
      exampleCycleEnv exampleBatch exampleCore)) = []"
  by code_simp

subsection \<open>The acceptance of the short text\<close>

lemma worker_short_text_acceptance:
  assumes "fst (xNotificationAttempts env lore bid ids 1 4 None) = Inr text"
  shows "text \<noteq> [] \<and> length text \<le> 260 \<and> \<not> hasUrlLike text \<and> \<not> test rx_hashtag text \<and>
         length (snd (xNotificationAttempts env lore bid ids 1 4 None)) \<le> 4"
  using xattempts_valid[OF assms] xattempts_bounded[of env lore bid ids 1 4 None]
  by (auto simp: isValidXNotificationText_def split: if_splits)

text \<open>C4 on the code. The batch of the example names the account \<^verbatim>\<open>alice.near\<close>; the generator
  answers \<^verbatim>\<open>hello\<close>, which does not contain it, so the acceptance predicate with the
  identifiers rejects the text. The worker calls the predicate without them: the first
  attempt is accepted and the text is handed to the short-form publisher.\<close>

theorem worker_accepts_short_text_without_account_ids:
  "buildLorePayload exampleCycleEnv exampleBatch [] =
     Inr (js ''payload'', js ''prompt'', [js ''alice.near'']) \<and>
   \<not> isValidXNotificationText (js ''hello'') [js ''alice.near''] \<and>
   isValidXNotificationText (js ''hello'') [] \<and>
   xNotificationAttempts exampleCycleEnv (js ''The forest remembers.'') (batch_id exampleBatch)
     [js ''alice.near''] 1 4 None =
     (Inr (js ''hello''), [Call_writeXNotification (batch_id exampleBatch) 1]) \<and>
   wtrace (processBatch exampleConfig (exampleCycleEnv\<lparr>localMinutesNow := Inr 600\<rparr>)
            exampleBatch exampleCore) =
     [Call_writeLore (batch_id exampleBatch),
      Call_writeXNotification (batch_id exampleBatch) 1,
      Call_publishLoreThread (batch_id exampleBatch),
      Published_lore_stored (batch_id exampleBatch),
      Call_publishLoreToX (batch_id exampleBatch) (js ''hello'')]"
  by code_simp

subsection \<open>Failures and the backlog\<close>

lemma publishStep_state:
  "lastBatchId (wstate (snd (publishStep cfg env batch lore xText ip w))) = lastBatchId (wstate w) \<and>
   lastError (wstate (snd (publishStep cfg env batch lore xText ip w))) = lastError (wstate w)"
  by (auto simp: publishStep_def Let_def split: sum.splits option.splits)

lemma cycle_state:
  "lastBatchId (wstate (snd (cycle cfg env batch w))) = lastBatchId (wstate w) \<and>
   lastError (wstate (snd (cycle cfg env batch w))) = lastError (wstate w)"
proof (cases "buildLorePayload env batch (rev (take (maxSize (store w)) (listNewestFirst (store w))))")
  case (Inl e)
  then show ?thesis by (simp add: cycle_def cycleRest_def Let_def)
next
  case (Inr x)
  obtain payload imagePrompt ids where x: "x = (payload, imagePrompt, ids)" by (cases x)
  obtain r evs where lc: "loreCycle cfg env (batch_id batch) payload ids = (r, evs)"
    by (cases "loreCycle cfg env (batch_id batch) payload ids")
  show ?thesis
  proof (cases r)
    case (Inl e)
    then show ?thesis using Inr x lc by (simp add: cycle_def cycleRest_def Let_def)
  next
    case r: (Inr y)
    obtain lore xText where y: "y = (lore, xText)" by (cases y)
    from publishStep_state[of cfg env batch lore xText imagePrompt "w\<lparr>wtrace := wtrace w @ evs\<rparr>"]
    show ?thesis using Inr x lc r y by (simp add: cycle_def cycleRest_def Let_def)
  qed
qed

lemma loreCycle_events:
  "\<exists>rest. snd (loreCycle cfg env bid payload ids) = Call_writeLore bid # rest \<and>
          filter is_call_writeLore rest = []"
proof -
  have x: "filter is_call_writeLore evs = []"
    if "xNotificationAttempts env lore bid ids (Suc 0) 4 None = (r, evs)" for lore r evs
  proof -
    have "evs = snd (xNotificationAttempts env lore bid ids (Suc 0) 4 None)" using that by simp
    then show ?thesis
      by (fastforce simp: filter_empty_conv is_call_writeLore_def dest: xattempts_only_calls)
  qed
  show ?thesis
    by (auto simp: loreCycle_def is_call_writeLore_def x
             split: sum.splits if_splits bool.splits prod.splits)
qed

lemma cycleEvents_writeLore:
  assumes "buildLorePayload env batch
             (rev (take (maxSize (store w)) (listNewestFirst (store w)))) = Inr x"
  shows "filter is_call_writeLore (cycleEvents cfg env batch w) = [Call_writeLore (batch_id batch)]"
proof -
  obtain payload imagePrompt ids where x: "x = (payload, imagePrompt, ids)" by (cases x)
  obtain r evs where lc: "loreCycle cfg env (batch_id batch) payload ids = (r, evs)"
    by (cases "loreCycle cfg env (batch_id batch) payload ids")
  from loreCycle_events[of cfg env "batch_id batch" payload ids] lc
  have evs: "filter is_call_writeLore evs = [Call_writeLore (batch_id batch)]"
    by (auto simp: is_call_writeLore_def)
  have "\<exists>evs2. wtrace (snd (cycle cfg env batch w)) = wtrace w @ evs @ evs2 \<and>
               filter is_call_writeLore evs2 = []"
  proof (cases r)
    case (Inl e)
    then show ?thesis using assms x lc by (simp add: cycle_def cycleRest_def Let_def)
  next
    case r: (Inr y)
    obtain lore xText where y: "y = (lore, xText)" by (cases y)
    from publishStep_trace[of cfg env batch lore xText imagePrompt "w\<lparr>wtrace := wtrace w @ evs\<rparr>"]
    obtain evs2 where
      "wtrace (snd (publishStep cfg env batch lore xText imagePrompt (w\<lparr>wtrace := wtrace w @ evs\<rparr>)))
         = wtrace w @ evs @ evs2"
      "\<forall>e\<in>set evs2. e = Call_publishLoreThread (batch_id batch) \<or>
           e = Published_lore_stored (batch_id batch) \<or>
           (\<exists>text. xText = Some text \<and> e = Call_publishLoreToX (batch_id batch) text)"
      by auto
    moreover from this(2) have "filter is_call_writeLore evs2 = []"
      by (auto simp: filter_empty_conv is_call_writeLore_def)
    ultimately show ?thesis using assms x lc r y by (simp add: cycle_def cycleRest_def Let_def)
  qed
  then show ?thesis using evs by (auto simp: cycleEvents_def)
qed

lemma succeeds_cycle:
  assumes s: "succeeds cfg env" and key: "nearAiApiKey cfg \<noteq> []"
  shows "fst (cycle cfg env batch w) = None"
proof -
  from s obtain p m where p: "getMarketingPolicy cfg = Inr p" and m: "localMinutesNow env = Inr m"
    by (auto simp: succeeds_def)
  from s obtain x where b: "buildLorePayload env batch
             (rev (take (maxSize (store w)) (listNewestFirst (store w)))) = Inr x"
    unfolding succeeds_def by blast
  obtain payload imagePrompt ids where x: "x = (payload, imagePrompt, ids)" by (cases x)
  from s obtain lore where l: "writeLoreUnlocked env payload (batch_id batch) = Inr lore"
    unfolding succeeds_def by blast
  from s obtain xt where xt: "writeXNotificationFromLoreUnlocked env lore (batch_id batch) 1 ids = Inr xt"
      "isValidXNotificationText xt []"
    unfolding succeeds_def by blast
  have xa: "xNotificationAttempts env lore (batch_id batch) ids 1 4 None =
            (Inr xt, [Call_writeXNotification (batch_id batch) 1])"
    using xattempts_first_ok[OF xt, of 3 None] by (simp add: numeral_eq_Suc)
  from s obtain pub where pub: "publishLoreThread env batch [lore] = Inr pub"
    unfolding succeeds_def by blast
  from s have px: "\<exists>r. publishLoreToXWithText env lore (batch_id batch) t imagePrompt = Inr r" for t
    unfolding succeeds_def by blast
  have "\<exists>xText evs. loreCycle cfg env (batch_id batch) payload ids = (Inr (lore, xText), evs)"
    using l p m key xa
    by (auto simp: loreCycle_def isInMarketingWindowAt_def split: bool.splits)
  then obtain xText evs where
    lc: "loreCycle cfg env (batch_id batch) payload ids = (Inr (lore, xText), evs)" by blast
  have "fst (publishStep cfg env batch lore xText imagePrompt (w\<lparr>wtrace := wtrace w @ evs\<rparr>)) = None"
  proof (cases xText)
    case None
    then show ?thesis using pub by (simp add: publishStep_def Let_def)
  next
    case (Some t)
    from px[of t] obtain r where "publishLoreToXWithText env lore (batch_id batch) t imagePrompt = Inr r"
      by blast
    then show ?thesis using pub Some by (simp add: publishStep_def Let_def)
  qed
  then show ?thesis using b x lc by (simp add: cycle_def cycleRest_def Let_def)
qed

lemma startCycle_fields:
  "wtrace (startCycle batch w) = wtrace w" "store (startCycle batch w) = store w"
  "lastBatchId (wstate (startCycle batch w)) = Some (batch_id batch)"
  "lastError (wstate (startCycle batch w)) = None"
  by (simp_all add: startCycle_def)

lemma touch_fields: "wtrace (touch now w) = wtrace w" "store (touch now w) = store w"
  by (simp_all add: touch_def)

lemma processBatch_trace:
  "wtrace (processBatch cfg env batch w) =
     wtrace w @ cycleEvents cfg env batch (startCycle batch w) @
     (case fst (cycle cfg env batch (startCycle batch w)) of
        None \<Rightarrow> [] | Some err \<Rightarrow> [Lore_worker_failed (batch_id batch) err])"
  using cycle_trace[of cfg env batch "startCycle batch w"]
  by (simp add: processBatch_unfold startCycle_fields split: option.splits)

lemma processBatch_state:
  "lastBatchId (wstate (processBatch cfg env batch w)) = Some (batch_id batch)"
  "lastError (wstate (processBatch cfg env batch w)) = fst (cycle cfg env batch (startCycle batch w))"
  using cycle_state[of cfg env batch "startCycle batch w"]
  by (auto simp: processBatch_unfold startCycle_fields split: option.splits)

lemma processAll_succeeds:
  assumes s: "\<forall>i. succeeds cfg (envs i)" and key: "nearAiApiKey cfg \<noteq> []"
  shows "\<exists>evs. wtrace (processAll cfg envs k bs w) = wtrace w @ evs \<and>
               filter is_call_writeLore evs = map (\<lambda>x. Call_writeLore (batch_id x)) bs \<and>
               (bs \<noteq> [] \<longrightarrow> lastError (wstate (processAll cfg envs k bs w)) = None \<and>
                  lastBatchId (wstate (processAll cfg envs k bs w)) = Some (batch_id (last bs)))"
proof (induction bs arbitrary: k w)
  case Nil
  then show ?case by simp
next
  case (Cons batch bs)
  let ?w1 = "touch (tickClock (envs k)) w"
  let ?w5 = "processBatch cfg (envs k) batch ?w1"
  have sk: "succeeds cfg (envs k)" using s by blast
  have ok: "fst (cycle cfg (envs k) batch (startCycle batch ?w1)) = None"
    using succeeds_cycle[OF sk key] .
  from sk obtain x where b: "buildLorePayload (envs k) batch
       (rev (take (maxSize (store (startCycle batch ?w1)))
                  (listNewestFirst (store (startCycle batch ?w1))))) = Inr x"
    unfolding succeeds_def by blast
  have t5: "wtrace ?w5 = wtrace w @ cycleEvents cfg (envs k) batch (startCycle batch ?w1)"
    using processBatch_trace[of cfg "envs k" batch ?w1] ok by (simp add: touch_fields)
  have f5: "filter is_call_writeLore (cycleEvents cfg (envs k) batch (startCycle batch ?w1)) =
            [Call_writeLore (batch_id batch)]"
    by (rule cycleEvents_writeLore[OF b])
  have st5: "lastError (wstate ?w5) = None" "lastBatchId (wstate ?w5) = Some (batch_id batch)"
    using processBatch_state[of cfg "envs k" batch ?w1] ok by auto
  from Cons.IH[of "k + 1" ?w5] obtain evs where
    ih: "wtrace (processAll cfg envs (k + 1) bs ?w5) = wtrace ?w5 @ evs"
        "filter is_call_writeLore evs = map (\<lambda>x. Call_writeLore (batch_id x)) bs"
        "bs \<noteq> [] \<longrightarrow> lastError (wstate (processAll cfg envs (k + 1) bs ?w5)) = None \<and>
           lastBatchId (wstate (processAll cfg envs (k + 1) bs ?w5)) = Some (batch_id (last bs))"
    by blast
  show ?case
  proof (intro exI[of _ "cycleEvents cfg (envs k) batch (startCycle batch ?w1) @ evs"] conjI impI)
    show "wtrace (processAll cfg envs k (batch # bs) w) =
          wtrace w @ cycleEvents cfg (envs k) batch (startCycle batch ?w1) @ evs"
      using ih(1) t5 by simp
    show "filter is_call_writeLore (cycleEvents cfg (envs k) batch (startCycle batch ?w1) @ evs) =
          map (\<lambda>x. Call_writeLore (batch_id x)) (batch # bs)"
      using f5 ih(2) by simp
    show "lastError (wstate (processAll cfg envs k (batch # bs) w)) = None"
      using ih(3) st5 by (cases bs) auto
    show "lastBatchId (wstate (processAll cfg envs k (batch # bs) w)) =
          Some (batch_id (last (batch # bs)))"
      using ih(3) st5 by (cases bs) auto
  qed
qed

lemma processAll_idle:
  "bs \<noteq> [] \<Longrightarrow> \<not> busy (wstate (processAll cfg envs k bs w))"
proof (induction bs arbitrary: k w)
  case Nil
  then show ?case by simp
next
  case (Cons batch bs)
  show ?case
  proof (cases bs)
    case Nil
    then show ?thesis by (simp add: processBatch_idle)
  next
    case (Cons a as)
    then have "bs \<noteq> []" by simp
    from Cons.IH[OF this] show ?thesis by simp
  qed
qed

text \<open>The attempt loop gives up with the error of the last attempt that raised, or with its
  own error when every attempt answered with a text that the check refuses.\<close>

lemma xattempts_all_raise:
  assumes "\<forall>a. writeXNotificationFromLoreUnlocked env lore bid a ids = Inl e"
  shows "fst (xNotificationAttempts env lore bid ids 1 4 None) = Inl e"
  using assms by (simp add: numeral_eq_Suc xattempts_Suc)

lemma xattempts_all_refused:
  assumes "\<forall>a. \<exists>t. writeXNotificationFromLoreUnlocked env lore bid a ids = Inr t \<and>
                  \<not> isValidXNotificationText t []"
  shows "fst (xNotificationAttempts env lore bid ids 1 4 None) =
         Inl (Error ''x_notification_failed_to_fit_constraints'')"
proof -
  have s: "fst (xNotificationAttempts env lore bid ids a (Suc k) None) =
           fst (xNotificationAttempts env lore bid ids (a + 1) k None)" for a k
    using assms[rule_format, of a] by (auto simp: xattempts_Suc)
  show ?thesis by (simp add: numeral_eq_Suc s)
qed

text \<open>The body under the permit raises when the chronicle writer, the marketing policy or the
  local time raises, or when the attempt loop gives up.\<close>

lemma loreCycle_raises:
  shows "writeLoreUnlocked env payload bid = Inl e \<Longrightarrow>
         fst (loreCycle cfg env bid payload ids) = Inl e"
    and "writeLoreUnlocked env payload bid = Inr lore \<Longrightarrow> publishLoreToX cfg \<Longrightarrow>
         getMarketingPolicy cfg = Inl e \<Longrightarrow>
         fst (loreCycle cfg env bid payload ids) = Inl e"
    and "writeLoreUnlocked env payload bid = Inr lore \<Longrightarrow> publishLoreToX cfg \<Longrightarrow>
         getMarketingPolicy cfg = Inr p \<Longrightarrow> enabled p \<Longrightarrow> localMinutesNow env = Inl e \<Longrightarrow>
         fst (loreCycle cfg env bid payload ids) = Inl e"
    and "writeLoreUnlocked env payload bid = Inr lore \<Longrightarrow> publishLoreToX cfg \<Longrightarrow>
         getMarketingPolicy cfg = Inr p \<Longrightarrow> nearAiApiKey cfg \<noteq> [] \<Longrightarrow>
         \<not> enabled p \<or>
           (localMinutesNow env = Inr m \<and>
            \<not> isInCircularRange m (windowStartMinutes p) (windowEndMinutes p)) \<Longrightarrow>
         fst (xNotificationAttempts env lore bid ids 1 4 None) = Inl e \<Longrightarrow>
         fst (loreCycle cfg env bid payload ids) = Inl e"
proof -
  show "writeLoreUnlocked env payload bid = Inl e \<Longrightarrow>
         fst (loreCycle cfg env bid payload ids) = Inl e"
    by (simp add: loreCycle_def)
  show "writeLoreUnlocked env payload bid = Inr lore \<Longrightarrow> publishLoreToX cfg \<Longrightarrow>
         getMarketingPolicy cfg = Inl e \<Longrightarrow>
         fst (loreCycle cfg env bid payload ids) = Inl e"
    by (simp add: loreCycle_def)
  show "writeLoreUnlocked env payload bid = Inr lore \<Longrightarrow> publishLoreToX cfg \<Longrightarrow>
         getMarketingPolicy cfg = Inr p \<Longrightarrow> enabled p \<Longrightarrow> localMinutesNow env = Inl e \<Longrightarrow>
         fst (loreCycle cfg env bid payload ids) = Inl e"
    by (simp add: loreCycle_def isInMarketingWindowAt_def)
  show "fst (loreCycle cfg env bid payload ids) = Inl e"
    if "writeLoreUnlocked env payload bid = Inr lore" "publishLoreToX cfg"
       "getMarketingPolicy cfg = Inr p" "nearAiApiKey cfg \<noteq> []"
       "\<not> enabled p \<or>
           (localMinutesNow env = Inr m \<and>
            \<not> isInCircularRange m (windowStartMinutes p) (windowEndMinutes p))"
       "fst (xNotificationAttempts env lore bid ids 1 4 None) = Inl e"
    using loreCycle_proceed[OF that(1-5), of ids] that(6) by simp
qed

lemma xOutcomes_append: "xOutcomes (xs @ ys) = xOutcomes xs @ xOutcomes ys"
  by (induction xs) (auto split: worker_event.splits)

lemma succeeds_cycleEvents:
  assumes s: "succeeds cfg env" and key: "nearAiApiKey cfg \<noteq> []"
  shows "filter is_call_publishLoreThread (cycleEvents cfg env batch w) =
         (if publishLoreToNearSocial cfg then [Call_publishLoreThread (batch_id batch)] else [])"
    and "xOutcomes (cycleEvents cfg env batch w) =
         (if publishLoreToX cfg then [batch_id batch] else [])"
proof -
  let ?bid = "batch_id batch"
  from s obtain p m where p: "getMarketingPolicy cfg = Inr p" and m: "localMinutesNow env = Inr m"
    by (auto simp: succeeds_def)
  from s obtain x where b: "buildLorePayload env batch
             (rev (take (maxSize (store w)) (listNewestFirst (store w)))) = Inr x"
    unfolding succeeds_def by blast
  obtain payload imagePrompt ids where x: "x = (payload, imagePrompt, ids)" by (cases x)
  from s obtain lore where l: "writeLoreUnlocked env payload ?bid = Inr lore"
    unfolding succeeds_def by blast
  from s obtain xt where xt: "writeXNotificationFromLoreUnlocked env lore ?bid 1 ids = Inr xt"
      "isValidXNotificationText xt []"
    unfolding succeeds_def by blast
  have xa: "xNotificationAttempts env lore ?bid ids 1 4 None =
            (Inr xt, [Call_writeXNotification ?bid 1])"
    using xattempts_first_ok[OF xt, of 3 None] by (simp add: numeral_eq_Suc)
  have xtne: "xt \<noteq> []" using xt(2) by (auto simp: isValidXNotificationText_def)
  from s obtain pub where pub: "publishLoreThread env batch [lore] = Inr pub"
    unfolding succeeds_def by blast
  from s obtain rx where rx: "publishLoreToXWithText env lore ?bid xt imagePrompt = Inr rx"
    unfolding succeeds_def by blast
  have psN: "wtrace (snd (publishStep cfg env batch lore None imagePrompt w')) =
             wtrace w' @ (if publishLoreToNearSocial cfg
                          then [Call_publishLoreThread ?bid, Published_lore_stored ?bid] else [])"
    for w' using pub by (simp add: publishStep_def Let_def)
  have psS: "publishLoreToX cfg \<Longrightarrow>
             wtrace (snd (publishStep cfg env batch lore (Some xt) imagePrompt w')) =
             wtrace w' @ (if publishLoreToNearSocial cfg
                          then [Call_publishLoreThread ?bid, Published_lore_stored ?bid] else [])
                       @ [Call_publishLoreToX ?bid xt]"
    for w' using pub rx xtne by (simp add: publishStep_def Let_def)
  consider (off) "\<not> publishLoreToX cfg"
    | (skip) "publishLoreToX cfg" "enabled p"
        "isInCircularRange m (windowStartMinutes p) (windowEndMinutes p)"
    | (go) "publishLoreToX cfg"
        "\<not> enabled p \<or> (localMinutesNow env = Inr m \<and>
           \<not> isInCircularRange m (windowStartMinutes p) (windowEndMinutes p))"
    using m by blast
  then have "cycleEvents cfg env batch w =
          [Call_writeLore ?bid] @
          (if publishLoreToX cfg then
             (if enabled p \<and> isInCircularRange m (windowStartMinutes p) (windowEndMinutes p)
              then [X_publish_skipped_marketing_window ?bid ''marketing_window'']
              else [Call_writeXNotification ?bid 1])
           else []) @
          (if publishLoreToNearSocial cfg
           then [Call_publishLoreThread ?bid, Published_lore_stored ?bid] else []) @
          (if publishLoreToX cfg \<and>
              \<not> (enabled p \<and> isInCircularRange m (windowStartMinutes p) (windowEndMinutes p))
           then [Call_publishLoreToX ?bid xt] else [])"
  proof cases
    case off
    have "loreCycle cfg env ?bid payload ids = (Inr (lore, None), [Call_writeLore ?bid])"
      using l off by (simp add: loreCycle_def)
    then show ?thesis using off b x
      by (simp add: cycleEvents_def cycle_def cycleRest_def Let_def psN)
  next
    case skip
    from loreCycle_skip[OF l skip(1) p skip(2) m skip(3), of ids]
    show ?thesis using skip b x
      by (simp add: cycleEvents_def cycle_def cycleRest_def Let_def psN)
  next
    case go
    from loreCycle_proceed[OF l go(1) p key go(2), of ids] xa
    have "loreCycle cfg env ?bid payload ids =
          (Inr (lore, Some xt), [Call_writeLore ?bid, Call_writeXNotification ?bid 1])"
      by simp
    moreover have "\<not> (enabled p \<and> isInCircularRange m (windowStartMinutes p) (windowEndMinutes p))"
      using go(2) by auto
    ultimately show ?thesis using go(1) b x
      by (simp add: cycleEvents_def cycle_def cycleRest_def Let_def psS)
  qed
  then show "filter is_call_publishLoreThread (cycleEvents cfg env batch w) =
         (if publishLoreToNearSocial cfg then [Call_publishLoreThread (batch_id batch)] else [])"
    and "xOutcomes (cycleEvents cfg env batch w) =
         (if publishLoreToX cfg then [batch_id batch] else [])"
    by (simp_all add: is_call_publishLoreThread_def xOutcomes_append)
qed

lemma processAll_succeeds_publish:
  assumes s: "\<forall>i. succeeds cfg (envs i)" and key: "nearAiApiKey cfg \<noteq> []"
  shows "\<exists>evs. wtrace (processAll cfg envs k bs w) = wtrace w @ evs \<and>
               filter is_call_publishLoreThread evs =
                 (if publishLoreToNearSocial cfg
                  then map (\<lambda>x. Call_publishLoreThread (batch_id x)) bs else []) \<and>
               xOutcomes evs = (if publishLoreToX cfg then map batch_id bs else [])"
proof (induction bs arbitrary: k w)
  case Nil
  then show ?case by simp
next
  case (Cons batch bs)
  let ?w1 = "touch (tickClock (envs k)) w"
  let ?w5 = "processBatch cfg (envs k) batch ?w1"
  let ?ce = "cycleEvents cfg (envs k) batch (startCycle batch ?w1)"
  have sk: "succeeds cfg (envs k)" using s by blast
  have ok: "fst (cycle cfg (envs k) batch (startCycle batch ?w1)) = None"
    using succeeds_cycle[OF sk key] .
  have t5: "wtrace ?w5 = wtrace w @ ?ce"
    using processBatch_trace[of cfg "envs k" batch ?w1] ok by (simp add: touch_fields)
  note f5 = succeeds_cycleEvents[OF sk key, of batch "startCycle batch ?w1"]
  from Cons.IH[of "k + 1" ?w5] obtain evs where
    ih: "wtrace (processAll cfg envs (k + 1) bs ?w5) = wtrace ?w5 @ evs"
        "filter is_call_publishLoreThread evs =
           (if publishLoreToNearSocial cfg
            then map (\<lambda>x. Call_publishLoreThread (batch_id x)) bs else [])"
        "xOutcomes evs = (if publishLoreToX cfg then map batch_id bs else [])"
    by blast
  show ?case
  proof (intro exI[of _ "?ce @ evs"] conjI)
    show "wtrace (processAll cfg envs k (batch # bs) w) = wtrace w @ ?ce @ evs"
      using ih(1) t5 by simp
    show "filter is_call_publishLoreThread (?ce @ evs) =
          (if publishLoreToNearSocial cfg
           then map (\<lambda>x. Call_publishLoreThread (batch_id x)) (batch # bs) else [])"
      using f5(1) ih(2) by simp
    show "xOutcomes (?ce @ evs) = (if publishLoreToX cfg then map batch_id (batch # bs) else [])"
      using f5(2) ih(3) by (simp add: xOutcomes_append)
  qed
qed

text \<open>C2, as the code has it. An idle worker with the key set and the batch \<open>batch\<close> at the head
  of the pending ring runs a tick. If a step of the cycle raises (the payload builder, the
  chronicle writer, the marketing policy, the local time, the attempt loop of the short
  text, the long-form or the short-form publisher), the error is recorded in \<open>lastError\<close>
  and logged. In every case the worker is Idle when the cycle is over, the batch has left
  the pending ring and the other batches stay in order behind it; when batches remain, the
  tick calls \<^verbatim>\<open>tick\<close> again at once and does not await it. So the promise of \<^verbatim>\<open>runOnce()\<close> is
  settled when the first cycle is over: if a second batch is pending and its payload can be
  built, the worker is then already busy with that batch. The chain of ticks that the call
  has started goes on without any other trigger: it processes all pending batches in order,
  whatever fails, and ends Idle with an empty pending ring. With collaborators that succeed
  no error is left, the last batch processed is the last one of the ring, the chronicle
  writer was called once for each batch, in order, and so was the long-form publisher when
  it is switched on; when the short-form channel is switched on, the secondary step of each
  batch ended with the call of the short-form publisher or the logged skip.\<close>

theorem worker_failure_recorded_backlog_drained:
  fixes envs :: "nat \<Rightarrow> 'p cycleEnv" and k :: nat
  assumes idle: "\<not> busy (wstate w)" and key: "nearAiApiKey cfg \<noteq> []"
    and inv: "rb_inv (pendingBatches b)" and c: "contents (pendingBatches b) = batch # rest"
  defines "w5 \<equiv> processBatch cfg (envs k) batch (touch (tickClock (envs k)) w)"
  defines "b1 \<equiv> snd (drainPending 1 b)"
  defines "r5 \<equiv> processBatch cfg (envs 0) batch (touch (tickClock (envs 0)) w)"
  defines "settled \<equiv> runOnce cfg envs (b, w)"
  defines "final \<equiv> backgroundTicks cfg envs (runOnce cfg envs (b, w))"
  shows "(\<forall>e. (buildLorePayload (envs k) batch (rev (take (maxSize (store w)) (listNewestFirst (store w)))) = Inl e \<or>
     (\<exists>payload imagePrompt ids.
        buildLorePayload (envs k) batch (rev (take (maxSize (store w)) (listNewestFirst (store w)))) = Inr (payload, imagePrompt, ids) \<and>
        (writeLoreUnlocked (envs k) payload (batch_id batch) = Inl e \<or>
         (\<exists>lore. writeLoreUnlocked (envs k) payload (batch_id batch) = Inr lore \<and>
            publishLoreToX cfg \<and>
            (getMarketingPolicy cfg = Inl e \<or>
             (\<exists>p. getMarketingPolicy cfg = Inr p \<and> enabled p \<and>
                  localMinutesNow (envs k) = Inl e) \<or>
             (\<exists>p. getMarketingPolicy cfg = Inr p \<and>
                  (\<not> enabled p \<or>
                   (\<exists>m. localMinutesNow (envs k) = Inr m \<and>
                        \<not> isInCircularRange m (windowStartMinutes p) (windowEndMinutes p))) \<and>
                  fst (xNotificationAttempts (envs k) lore (batch_id batch) ids 1 4 None) =
                    Inl e))) \<or>
         (\<exists>lore xText.
            fst (loreCycle cfg (envs k) (batch_id batch) payload ids) = Inr (lore, xText) \<and>
            ((publishLoreToNearSocial cfg \<and> publishLoreThread (envs k) batch [lore] = Inl e) \<or>
             ((\<not> publishLoreToNearSocial cfg \<or>
               (\<exists>r. publishLoreThread (envs k) batch [lore] = Inr r)) \<and>
              publishLoreToX cfg \<and>
              (\<exists>xt. xText = Some xt \<and> xt \<noteq> [] \<and>
                 publishLoreToXWithText (envs k) lore (batch_id batch) xt imagePrompt =
                   Inl e))))))) \<longrightarrow>
            lastError (wstate w5) = Some e \<and>
            Lore_worker_failed (batch_id batch) e \<in> set (wtrace w5)) \<and>
         \<not> busy (wstate w5) \<and>
         fst (drainPending 1 b) = [batch] \<and> contents (pendingBatches b1) = rest \<and>
         tick cfg envs k (b, w) =
           (if rest = [] then ((b1, w5), None) else fireTick cfg envs (k + 1) (b1, w5)) \<and>
         (\<forall>nxt rest2 x.
            rest = nxt # rest2 \<and> buildLorePayload (envs 1) nxt (rev (take (maxSize (store r5)) (listNewestFirst (store r5)))) = Inr x \<longrightarrow>
            busy (wstate (snd (fst settled))) \<and>
            lastBatchId (wstate (snd (fst settled))) = Some (batch_id nxt) \<and>
            contents (pendingBatches (fst (fst settled))) = rest2 \<and>
            snd settled \<noteq> None) \<and>
         snd final = processAll cfg envs 0 (batch # rest) w \<and>
         contents (pendingBatches (fst final)) = [] \<and>
         \<not> busy (wstate (snd final)) \<and>
         ((\<forall>i. succeeds cfg (envs i)) \<longrightarrow>
            lastError (wstate (snd final)) = None \<and>
            lastBatchId (wstate (snd final)) = Some (batch_id (last (batch # rest))) \<and>
            filter is_call_writeLore (drop (length (wtrace w)) (wtrace (snd final))) =
              map (\<lambda>x. Call_writeLore (batch_id x)) (batch # rest) \<and>
            (publishLoreToNearSocial cfg \<longrightarrow>
               filter is_call_publishLoreThread (drop (length (wtrace w)) (wtrace (snd final))) =
                 map (\<lambda>x. Call_publishLoreThread (batch_id x)) (batch # rest)) \<and>
            (publishLoreToX cfg \<longrightarrow>
               xOutcomes (drop (length (wtrace w)) (wtrace (snd final))) =
                 map batch_id (batch # rest)))"
proof -
  let ?w1 = "touch (tickClock (envs k)) w"
  have 1: "\<forall>e. (buildLorePayload (envs k) batch (rev (take (maxSize (store w)) (listNewestFirst (store w)))) = Inl e \<or>
     (\<exists>payload imagePrompt ids.
        buildLorePayload (envs k) batch (rev (take (maxSize (store w)) (listNewestFirst (store w)))) = Inr (payload, imagePrompt, ids) \<and>
        (writeLoreUnlocked (envs k) payload (batch_id batch) = Inl e \<or>
         (\<exists>lore. writeLoreUnlocked (envs k) payload (batch_id batch) = Inr lore \<and>
            publishLoreToX cfg \<and>
            (getMarketingPolicy cfg = Inl e \<or>
             (\<exists>p. getMarketingPolicy cfg = Inr p \<and> enabled p \<and>
                  localMinutesNow (envs k) = Inl e) \<or>
             (\<exists>p. getMarketingPolicy cfg = Inr p \<and>
                  (\<not> enabled p \<or>
                   (\<exists>m. localMinutesNow (envs k) = Inr m \<and>
                        \<not> isInCircularRange m (windowStartMinutes p) (windowEndMinutes p))) \<and>
                  fst (xNotificationAttempts (envs k) lore (batch_id batch) ids 1 4 None) =
                    Inl e))) \<or>
         (\<exists>lore xText.
            fst (loreCycle cfg (envs k) (batch_id batch) payload ids) = Inr (lore, xText) \<and>
            ((publishLoreToNearSocial cfg \<and> publishLoreThread (envs k) batch [lore] = Inl e) \<or>
             ((\<not> publishLoreToNearSocial cfg \<or>
               (\<exists>r. publishLoreThread (envs k) batch [lore] = Inr r)) \<and>
              publishLoreToX cfg \<and>
              (\<exists>xt. xText = Some xt \<and> xt \<noteq> [] \<and>
                 publishLoreToXWithText (envs k) lore (batch_id batch) xt imagePrompt =
                   Inl e))))))) \<longrightarrow>
            lastError (wstate w5) = Some e \<and>
            Lore_worker_failed (batch_id batch) e \<in> set (wtrace w5)"
  proof (intro allI impI)
    fix e
    assume h: "(buildLorePayload (envs k) batch (rev (take (maxSize (store w)) (listNewestFirst (store w)))) = Inl e \<or>
     (\<exists>payload imagePrompt ids.
        buildLorePayload (envs k) batch (rev (take (maxSize (store w)) (listNewestFirst (store w)))) = Inr (payload, imagePrompt, ids) \<and>
        (writeLoreUnlocked (envs k) payload (batch_id batch) = Inl e \<or>
         (\<exists>lore. writeLoreUnlocked (envs k) payload (batch_id batch) = Inr lore \<and>
            publishLoreToX cfg \<and>
            (getMarketingPolicy cfg = Inl e \<or>
             (\<exists>p. getMarketingPolicy cfg = Inr p \<and> enabled p \<and>
                  localMinutesNow (envs k) = Inl e) \<or>
             (\<exists>p. getMarketingPolicy cfg = Inr p \<and>
                  (\<not> enabled p \<or>
                   (\<exists>m. localMinutesNow (envs k) = Inr m \<and>
                        \<not> isInCircularRange m (windowStartMinutes p) (windowEndMinutes p))) \<and>
                  fst (xNotificationAttempts (envs k) lore (batch_id batch) ids 1 4 None) =
                    Inl e))) \<or>
         (\<exists>lore xText.
            fst (loreCycle cfg (envs k) (batch_id batch) payload ids) = Inr (lore, xText) \<and>
            ((publishLoreToNearSocial cfg \<and> publishLoreThread (envs k) batch [lore] = Inl e) \<or>
             ((\<not> publishLoreToNearSocial cfg \<or>
               (\<exists>r. publishLoreThread (envs k) batch [lore] = Inr r)) \<and>
              publishLoreToX cfg \<and>
              (\<exists>xt. xText = Some xt \<and> xt \<noteq> [] \<and>
                 publishLoreToXWithText (envs k) lore (batch_id batch) xt imagePrompt =
                   Inl e)))))))"
    let ?w2 = "startCycle batch ?w1"
    have st: "store ?w2 = store w" by (simp add: startCycle_def touch_def)
    have lc: "fst (loreCycle cfg (envs k) (batch_id batch) payload ids) = Inl e"
      if "writeLoreUnlocked (envs k) payload (batch_id batch) = Inl e \<or>
         (\<exists>lore. writeLoreUnlocked (envs k) payload (batch_id batch) = Inr lore \<and>
            publishLoreToX cfg \<and>
            (getMarketingPolicy cfg = Inl e \<or>
             (\<exists>p. getMarketingPolicy cfg = Inr p \<and> enabled p \<and>
                  localMinutesNow (envs k) = Inl e) \<or>
             (\<exists>p. getMarketingPolicy cfg = Inr p \<and>
                  (\<not> enabled p \<or>
                   (\<exists>m. localMinutesNow (envs k) = Inr m \<and>
                        \<not> isInCircularRange m (windowStartMinutes p) (windowEndMinutes p))) \<and>
                  fst (xNotificationAttempts (envs k) lore (batch_id batch) ids 1 4 None) =
                    Inl e)))" for payload ids
      using that key
      by (elim disjE exE conjE) (blast intro: loreCycle_raises)+
    from h consider
        (build) "buildLorePayload (envs k) batch (rev (take (maxSize (store w)) (listNewestFirst (store w)))) = Inl e"
      | (lore) payload imagePrompt ids where
          "buildLorePayload (envs k) batch (rev (take (maxSize (store w)) (listNewestFirst (store w)))) = Inr (payload, imagePrompt, ids)"
          "fst (loreCycle cfg (envs k) (batch_id batch) payload ids) = Inl e"
      | (near) payload imagePrompt ids lore xText where
          "buildLorePayload (envs k) batch (rev (take (maxSize (store w)) (listNewestFirst (store w)))) = Inr (payload, imagePrompt, ids)"
          "fst (loreCycle cfg (envs k) (batch_id batch) payload ids) = Inr (lore, xText)"
          "publishLoreToNearSocial cfg" "publishLoreThread (envs k) batch [lore] = Inl e"
      | (x) payload imagePrompt ids lore xt where
          "buildLorePayload (envs k) batch (rev (take (maxSize (store w)) (listNewestFirst (store w)))) = Inr (payload, imagePrompt, ids)"
          "fst (loreCycle cfg (envs k) (batch_id batch) payload ids) = Inr (lore, Some xt)"
          "\<not> publishLoreToNearSocial cfg \<or>
           (\<exists>r. publishLoreThread (envs k) batch [lore] = Inr r)"
          "publishLoreToX cfg" "xt \<noteq> []"
          "publishLoreToXWithText (envs k) lore (batch_id batch) xt imagePrompt = Inl e"
      by (elim disjE exE conjE) (blast intro: lc)+
    then have cyc: "fst (cycle cfg (envs k) batch ?w2) = Some e"
    proof cases
      case build
      then show ?thesis by (simp add: cycle_def Let_def st)
    next
      case lore
      then show ?thesis
        by (cases "loreCycle cfg (envs k) (batch_id batch) payload ids")
           (simp add: cycle_def cycleRest_def Let_def st)
    next
      case near
      then show ?thesis
        by (cases "loreCycle cfg (envs k) (batch_id batch) payload ids")
           (simp add: cycle_def cycleRest_def publishStep_def Let_def st)
    next
      case x
      then show ?thesis
        by (cases "loreCycle cfg (envs k) (batch_id batch) payload ids")
           (auto simp: cycle_def cycleRest_def publishStep_def Let_def st)
    qed
    obtain w3 where c3: "cycle cfg (envs k) batch ?w2 = (Some e, w3)"
      using cyc by (cases "cycle cfg (envs k) batch ?w2") simp
    show "lastError (wstate w5) = Some e \<and>
            Lore_worker_failed (batch_id batch) e \<in> set (wtrace w5)"
      unfolding w5_def by (simp add: processBatch_def finishCycle_def Let_def c3)
  qed
  have 2: "\<not> busy (wstate w5)" unfolding w5_def by (rule processBatch_idle)
  note h = drainPending_head[OF inv c]
  have 3: "fst (drainPending 1 b) = [batch]" "contents (pendingBatches b1) = rest"
    unfolding b1_def by (rule h)+
  have 4: "tick cfg envs k (b, w) =
           (if rest = [] then ((b1, w5), None) else fireTick cfg envs (k + 1) (b1, w5))"
    unfolding b1_def w5_def by (rule tick_step[OF idle key inv c])
  have 5: "busy (wstate (snd (fst settled))) \<and>
            lastBatchId (wstate (snd (fst settled))) = Some (batch_id nxt) \<and>
            contents (pendingBatches (fst (fst settled))) = rest2 \<and>
            snd settled \<noteq> None"
    if r: "rest = nxt # rest2" and bx: "buildLorePayload (envs 1) nxt (rev (take (maxSize (store r5)) (listNewestFirst (store r5)))) = Inr x"
    for nxt rest2 x
  proof -
    obtain payload imagePrompt ids where x: "x = (payload, imagePrompt, ids)" by (cases x)
    have c2: "contents (pendingBatches b) = batch # nxt # rest2" using c r by simp
    have bx': "buildLorePayload (envs (0 + 1)) nxt
                 (rev (take (maxSize (store (processBatch cfg (envs 0) batch
                                               (touch (tickClock (envs 0)) w))))
                        (listNewestFirst (store (processBatch cfg (envs 0) batch
                                                   (touch (tickClock (envs 0)) w)))))) =
               Inr (payload, imagePrompt, ids)"
      using bx x unfolding r5_def by simp
    note t = tick_settles_busy[OF idle key inv c2 bx']
    have c1: "contents (pendingBatches (snd (drainPending 1 b))) = nxt # rest2"
      using h(2) r by simp
    have "contents (pendingBatches (snd (drainPending 1 (snd (drainPending 1 b))))) = rest2"
      by (rule drainPending_head(2)[OF h(3) c1])
    then show ?thesis
      unfolding settled_def runOnce_def t by (simp add: startCycle_def)
  qed
  note d = tick_drains[OF key idle inv c, of envs 0]
  have 6: "snd final = processAll cfg envs 0 (batch # rest) w"
    and 7: "contents (pendingBatches (fst final)) = []"
    using d unfolding final_def runOnce_def by auto
  have 8: "\<not> busy (wstate (snd final))"
    unfolding 6 by (rule processAll_idle) simp
  have 9: "lastError (wstate (snd final)) = None \<and>
            lastBatchId (wstate (snd final)) = Some (batch_id (last (batch # rest))) \<and>
            filter is_call_writeLore (drop (length (wtrace w)) (wtrace (snd final))) =
              map (\<lambda>x. Call_writeLore (batch_id x)) (batch # rest) \<and>
            (publishLoreToNearSocial cfg \<longrightarrow>
               filter is_call_publishLoreThread (drop (length (wtrace w)) (wtrace (snd final))) =
                 map (\<lambda>x. Call_publishLoreThread (batch_id x)) (batch # rest)) \<and>
            (publishLoreToX cfg \<longrightarrow>
               xOutcomes (drop (length (wtrace w)) (wtrace (snd final))) =
                 map batch_id (batch # rest))"
    if s: "\<forall>i. succeeds cfg (envs i)"
  proof -
    from processAll_succeeds[OF s key, of 0 "batch # rest" w] obtain evs where
      e: "wtrace (processAll cfg envs 0 (batch # rest) w) = wtrace w @ evs"
         "filter is_call_writeLore evs = map (\<lambda>x. Call_writeLore (batch_id x)) (batch # rest)"
         "lastError (wstate (processAll cfg envs 0 (batch # rest) w)) = None"
         "lastBatchId (wstate (processAll cfg envs 0 (batch # rest) w)) =
            Some (batch_id (last (batch # rest)))"
      by auto
    from processAll_succeeds_publish[OF s key, of 0 "batch # rest" w] obtain evs2 where
      e2: "wtrace (processAll cfg envs 0 (batch # rest) w) = wtrace w @ evs2"
          "filter is_call_publishLoreThread evs2 =
             (if publishLoreToNearSocial cfg
              then map (\<lambda>x. Call_publishLoreThread (batch_id x)) (batch # rest) else [])"
          "xOutcomes evs2 = (if publishLoreToX cfg then map batch_id (batch # rest) else [])"
      by blast
    have d1: "drop (length (wtrace w)) (wtrace (snd final)) = evs" unfolding 6 e(1) by simp
    have d2: "drop (length (wtrace w)) (wtrace (snd final)) = evs2" unfolding 6 e2(1) by simp
    show ?thesis
      using e(2-4) e2(2,3) d1 d2 unfolding 6 by simp
  qed
  from 1 2 3 4 5 6 7 8 9 show ?thesis by blast
qed

lemma example_succeeds: "succeeds exampleConfig exampleCycleEnv"
proof -
  have "getMarketingPolicy exampleConfig =
          Inr \<lparr>enabled = True, timezone = js ''Europe/Warsaw'', baseMinutes = 1200,
               windowMinutes = 60, windowStartMinutes = 1170, windowEndMinutes = 1230,
               jitterMinutes = 15\<rparr>"
    by code_simp
  then have p: "\<exists>p. getMarketingPolicy exampleConfig = Inr p" by blast
  have v: "isValidXNotificationText (js ''hello'') []" by code_simp
  show ?thesis using p v by (simp add: succeeds_def exampleCycleEnv_def)
qed

lemma exampleEnvs_succeed: "\<forall>i. succeeds exampleConfig (exampleEnvs i)"
  using example_succeeds by (simp add: exampleEnvs_def)

theorem worker_failure_recorded_backlog_drained_witness:
  "\<not> busy (wstate exampleCore) \<and> nearAiApiKey exampleConfig \<noteq> [] \<and>
   rb_inv (pendingBatches exampleBatcher) \<and>
   length (contents (pendingBatches exampleBatcher)) = 3 \<and>
   writeLoreUnlocked failingCycleEnv (js ''payload'') (batch_id exampleBatch) =
     Inl (Error ''upstream timeout'') \<and>
   lastError (wstate (processBatch exampleConfig failingCycleEnv exampleBatch
                        (touch (tickClock failingCycleEnv) exampleCore))) =
     Some (Error ''upstream timeout'') \<and>
   publishLoreToXWithText failingPublisherEnv (js ''The forest remembers.'')
       (batch_id exampleBatch) (js ''hello'') (js ''prompt'') =
     Inl (Error ''x api unavailable'') \<and>
   lastError (wstate (processBatch exampleConfig failingPublisherEnv exampleBatch
                        (touch (tickClock failingPublisherEnv) exampleCore))) =
     Some (Error ''x api unavailable'') \<and>
   (\<forall>i. succeeds exampleConfig (exampleEnvs i)) \<and>
   busy (wstate (snd (fst (runOnce exampleConfig exampleEnvs (exampleBatcher, exampleCore))))) \<and>
   contents (pendingBatches (fst (backgroundTicks exampleConfig exampleEnvs
      (runOnce exampleConfig exampleEnvs (exampleBatcher, exampleCore))))) = [] \<and>
   \<not> busy (wstate (snd (backgroundTicks exampleConfig exampleEnvs
      (runOnce exampleConfig exampleEnvs (exampleBatcher, exampleCore))))) \<and>
   filter is_call_writeLore
     (drop (length (wtrace exampleCore))
        (wtrace (snd (backgroundTicks exampleConfig exampleEnvs
           (runOnce exampleConfig exampleEnvs (exampleBatcher, exampleCore)))))) =
     [Call_writeLore \<lparr>fromRound = 1, toRound = 20, stamp = 1000\<rparr>,
      Call_writeLore \<lparr>fromRound = 21, toRound = 40, stamp = 2000\<rparr>,
      Call_writeLore \<lparr>fromRound = 41, toRound = 60, stamp = 3000\<rparr>] \<and>
   filter is_call_publishLoreThread
     (drop (length (wtrace exampleCore))
        (wtrace (snd (backgroundTicks exampleConfig exampleEnvs
           (runOnce exampleConfig exampleEnvs (exampleBatcher, exampleCore)))))) =
     [Call_publishLoreThread \<lparr>fromRound = 1, toRound = 20, stamp = 1000\<rparr>,
      Call_publishLoreThread \<lparr>fromRound = 21, toRound = 40, stamp = 2000\<rparr>,
      Call_publishLoreThread \<lparr>fromRound = 41, toRound = 60, stamp = 3000\<rparr>] \<and>
   xOutcomes
     (drop (length (wtrace exampleCore))
        (wtrace (snd (backgroundTicks exampleConfig exampleEnvs
           (runOnce exampleConfig exampleEnvs (exampleBatcher, exampleCore)))))) =
     [\<lparr>fromRound = 1, toRound = 20, stamp = 1000\<rparr>,
      \<lparr>fromRound = 21, toRound = 40, stamp = 2000\<rparr>,
      \<lparr>fromRound = 41, toRound = 60, stamp = 3000\<rparr>]"
proof -
  let ?B2 = "exampleBatch\<lparr>batch_id := \<lparr>fromRound = 21, toRound = 40, stamp = 2000\<rparr>\<rparr>"
  let ?B3 = "exampleBatch\<lparr>batch_id := \<lparr>fromRound = 41, toRound = 60, stamp = 3000\<rparr>\<rparr>"
  let ?mem = "rev (take (maxSize (store exampleCore)) (listNewestFirst (store exampleCore)))"
  let ?final = "backgroundTicks exampleConfig exampleEnvs
      (runOnce exampleConfig exampleEnvs (exampleBatcher, exampleCore))"
  have a: "\<not> busy (wstate exampleCore)" "nearAiApiKey exampleConfig \<noteq> []"
    "rb_inv (pendingBatches exampleBatcher)"
    by code_simp+
  have c: "contents (pendingBatches exampleBatcher) = exampleBatch # [?B2, ?B3]"
    by (simp add: contents_def exampleBatcher_def upt_rec)
  have l: "length (contents (pendingBatches exampleBatcher)) = 3" unfolding c by simp
  have fw: "buildLorePayload failingCycleEnv exampleBatch ?mem =
              Inr (js ''payload'', js ''prompt'', [js ''alice.near''])"
    "writeLoreUnlocked failingCycleEnv (js ''payload'') (batch_id exampleBatch) =
       Inl (Error ''upstream timeout'')"
    by code_simp+
  have fp: "buildLorePayload failingPublisherEnv exampleBatch ?mem =
              Inr (js ''payload'', js ''prompt'', [js ''alice.near''])"
    "fst (loreCycle exampleConfig failingPublisherEnv (batch_id exampleBatch) (js ''payload'')
            [js ''alice.near'']) =
       Inr (js ''The forest remembers.'', Some (js ''hello''))"
    "publishLoreThread failingPublisherEnv exampleBatch [js ''The forest remembers.''] =
       Inr \<lparr>rootKey = js ''root'', txHashes = [js ''tx1'']\<rparr>"
    "publishLoreToX exampleConfig" "js ''hello'' \<noteq> []"
    "publishLoreToXWithText failingPublisherEnv (js ''The forest remembers.'')
       (batch_id exampleBatch) (js ''hello'') (js ''prompt'') =
     Inl (Error ''x api unavailable'')"
    by code_simp+
  have s: "\<forall>i. succeeds exampleConfig (exampleEnvs i)" by (rule exampleEnvs_succeed)
  have nx: "buildLorePayload (exampleEnvs 1) ?B2
              (rev (take (maxSize (store (processBatch exampleConfig (exampleEnvs 0) exampleBatch
                                            (touch (tickClock (exampleEnvs 0)) exampleCore))))
                     (listNewestFirst (store (processBatch exampleConfig (exampleEnvs 0)
                         exampleBatch (touch (tickClock (exampleEnvs 0)) exampleCore)))))) =
            Inr (js ''payload'', js ''prompt'', [js ''alice.near''])"
    by (simp add: exampleEnvs_def exampleCycleEnv_def)
  have pub: "publishLoreToNearSocial exampleConfig" by code_simp
  have ids: "map (\<lambda>x. Call_writeLore (batch_id x)) (exampleBatch # [?B2, ?B3]) =
     [Call_writeLore \<lparr>fromRound = 1, toRound = 20, stamp = 1000\<rparr>,
      Call_writeLore \<lparr>fromRound = 21, toRound = 40, stamp = 2000\<rparr>,
      Call_writeLore \<lparr>fromRound = 41, toRound = 60, stamp = 3000\<rparr>]"
    "map (\<lambda>x. Call_publishLoreThread (batch_id x)) (exampleBatch # [?B2, ?B3]) =
     [Call_publishLoreThread \<lparr>fromRound = 1, toRound = 20, stamp = 1000\<rparr>,
      Call_publishLoreThread \<lparr>fromRound = 21, toRound = 40, stamp = 2000\<rparr>,
      Call_publishLoreThread \<lparr>fromRound = 41, toRound = 60, stamp = 3000\<rparr>]"
    "map batch_id (exampleBatch # [?B2, ?B3]) =
     [\<lparr>fromRound = 1, toRound = 20, stamp = 1000\<rparr>,
      \<lparr>fromRound = 21, toRound = 40, stamp = 2000\<rparr>,
      \<lparr>fromRound = 41, toRound = 60, stamp = 3000\<rparr>]"
    by (simp_all add: exampleBatch_def)
  note tw = worker_failure_recorded_backlog_drained[OF a c, of "\<lambda>i. failingCycleEnv" 0]
  note tp = worker_failure_recorded_backlog_drained[OF a c, of "\<lambda>i. failingPublisherEnv" 0]
  note ts = worker_failure_recorded_backlog_drained[OF a c, of exampleEnvs 0]
  have hw: "(buildLorePayload failingCycleEnv exampleBatch (rev (take (maxSize (store exampleCore)) (listNewestFirst (store exampleCore)))) = Inl (Error ''upstream timeout'') \<or>
     (\<exists>payload imagePrompt ids.
        buildLorePayload failingCycleEnv exampleBatch (rev (take (maxSize (store exampleCore)) (listNewestFirst (store exampleCore)))) = Inr (payload, imagePrompt, ids) \<and>
        (writeLoreUnlocked failingCycleEnv payload (batch_id exampleBatch) = Inl (Error ''upstream timeout'') \<or>
         (\<exists>lore. writeLoreUnlocked failingCycleEnv payload (batch_id exampleBatch) = Inr lore \<and>
            publishLoreToX exampleConfig \<and>
            (getMarketingPolicy exampleConfig = Inl (Error ''upstream timeout'') \<or>
             (\<exists>p. getMarketingPolicy exampleConfig = Inr p \<and> enabled p \<and>
                  localMinutesNow failingCycleEnv = Inl (Error ''upstream timeout'')) \<or>
             (\<exists>p. getMarketingPolicy exampleConfig = Inr p \<and>
                  (\<not> enabled p \<or>
                   (\<exists>m. localMinutesNow failingCycleEnv = Inr m \<and>
                        \<not> isInCircularRange m (windowStartMinutes p) (windowEndMinutes p))) \<and>
                  fst (xNotificationAttempts failingCycleEnv lore (batch_id exampleBatch) ids 1 4 None) =
                    Inl (Error ''upstream timeout'')))) \<or>
         (\<exists>lore xText.
            fst (loreCycle exampleConfig failingCycleEnv (batch_id exampleBatch) payload ids) = Inr (lore, xText) \<and>
            ((publishLoreToNearSocial exampleConfig \<and> publishLoreThread failingCycleEnv exampleBatch [lore] = Inl (Error ''upstream timeout'')) \<or>
             ((\<not> publishLoreToNearSocial exampleConfig \<or>
               (\<exists>r. publishLoreThread failingCycleEnv exampleBatch [lore] = Inr r)) \<and>
              publishLoreToX exampleConfig \<and>
              (\<exists>xt. xText = Some xt \<and> xt \<noteq> [] \<and>
                 publishLoreToXWithText failingCycleEnv lore (batch_id exampleBatch) xt imagePrompt =
                   Inl (Error ''upstream timeout''))))))))"
    using fw by blast
  have hp: "(buildLorePayload failingPublisherEnv exampleBatch (rev (take (maxSize (store exampleCore)) (listNewestFirst (store exampleCore)))) = Inl (Error ''x api unavailable'') \<or>
     (\<exists>payload imagePrompt ids.
        buildLorePayload failingPublisherEnv exampleBatch (rev (take (maxSize (store exampleCore)) (listNewestFirst (store exampleCore)))) = Inr (payload, imagePrompt, ids) \<and>
        (writeLoreUnlocked failingPublisherEnv payload (batch_id exampleBatch) = Inl (Error ''x api unavailable'') \<or>
         (\<exists>lore. writeLoreUnlocked failingPublisherEnv payload (batch_id exampleBatch) = Inr lore \<and>
            publishLoreToX exampleConfig \<and>
            (getMarketingPolicy exampleConfig = Inl (Error ''x api unavailable'') \<or>
             (\<exists>p. getMarketingPolicy exampleConfig = Inr p \<and> enabled p \<and>
                  localMinutesNow failingPublisherEnv = Inl (Error ''x api unavailable'')) \<or>
             (\<exists>p. getMarketingPolicy exampleConfig = Inr p \<and>
                  (\<not> enabled p \<or>
                   (\<exists>m. localMinutesNow failingPublisherEnv = Inr m \<and>
                        \<not> isInCircularRange m (windowStartMinutes p) (windowEndMinutes p))) \<and>
                  fst (xNotificationAttempts failingPublisherEnv lore (batch_id exampleBatch) ids 1 4 None) =
                    Inl (Error ''x api unavailable'')))) \<or>
         (\<exists>lore xText.
            fst (loreCycle exampleConfig failingPublisherEnv (batch_id exampleBatch) payload ids) = Inr (lore, xText) \<and>
            ((publishLoreToNearSocial exampleConfig \<and> publishLoreThread failingPublisherEnv exampleBatch [lore] = Inl (Error ''x api unavailable'')) \<or>
             ((\<not> publishLoreToNearSocial exampleConfig \<or>
               (\<exists>r. publishLoreThread failingPublisherEnv exampleBatch [lore] = Inr r)) \<and>
              publishLoreToX exampleConfig \<and>
              (\<exists>xt. xText = Some xt \<and> xt \<noteq> [] \<and>
                 publishLoreToXWithText failingPublisherEnv lore (batch_id exampleBatch) xt imagePrompt =
                   Inl (Error ''x api unavailable''))))))))"
    using fp by blast
  from tw[THEN conjunct1, rule_format, OF hw]
  have 1: "lastError (wstate (processBatch exampleConfig failingCycleEnv exampleBatch
                        (touch (tickClock failingCycleEnv) exampleCore))) =
     Some (Error ''upstream timeout'')"
    by (rule conjunct1)
  from tp[THEN conjunct1, rule_format, OF hp]
  have 2: "lastError (wstate (processBatch exampleConfig failingPublisherEnv exampleBatch
                        (touch (tickClock failingPublisherEnv) exampleCore))) =
     Some (Error ''x api unavailable'')"
    by (rule conjunct1)
  note rest = ts[THEN conjunct2, THEN conjunct2, THEN conjunct2, THEN conjunct2, THEN conjunct2]
  from rest[THEN conjunct1, rule_format, of ?B2 "[?B3]"] nx
  have 3: "busy (wstate (snd (fst (runOnce exampleConfig exampleEnvs (exampleBatcher, exampleCore)))))"
    by simp
  note fin = rest[THEN conjunct2, THEN conjunct2]
  have 4: "contents (pendingBatches (fst ?final)) = []" "\<not> busy (wstate (snd ?final))"
    using fin[THEN conjunct1] fin[THEN conjunct2, THEN conjunct1] by simp_all
  note ok = fin[THEN conjunct2, THEN conjunct2, THEN mp, OF s]
  have 5: "filter is_call_writeLore (drop (length (wtrace exampleCore)) (wtrace (snd ?final))) =
             map (\<lambda>x. Call_writeLore (batch_id x)) (exampleBatch # [?B2, ?B3])"
    "filter is_call_publishLoreThread (drop (length (wtrace exampleCore)) (wtrace (snd ?final))) =
             map (\<lambda>x. Call_publishLoreThread (batch_id x)) (exampleBatch # [?B2, ?B3])"
    "xOutcomes (drop (length (wtrace exampleCore)) (wtrace (snd ?final))) =
             map batch_id (exampleBatch # [?B2, ?B3])"
    using ok pub fp(4) by blast+
  have evaluated:
    "lastError (wstate (processBatch exampleConfig failingCycleEnv exampleBatch
                        (touch (tickClock failingCycleEnv) exampleCore))) =
       Some (Error ''upstream timeout'')"
    "lastError (wstate (processBatch exampleConfig failingPublisherEnv exampleBatch
                        (touch (tickClock failingPublisherEnv) exampleCore))) =
       Some (Error ''x api unavailable'')"
    "busy (wstate (snd (fst (runOnce exampleConfig exampleEnvs (exampleBatcher, exampleCore)))))"
    "filter is_call_publishLoreThread (drop (length (wtrace exampleCore)) (wtrace (snd ?final))) =
     [Call_publishLoreThread \<lparr>fromRound = 1, toRound = 20, stamp = 1000\<rparr>,
      Call_publishLoreThread \<lparr>fromRound = 21, toRound = 40, stamp = 2000\<rparr>,
      Call_publishLoreThread \<lparr>fromRound = 41, toRound = 60, stamp = 3000\<rparr>]"
    "xOutcomes (drop (length (wtrace exampleCore)) (wtrace (snd ?final))) =
     [\<lparr>fromRound = 1, toRound = 20, stamp = 1000\<rparr>,
      \<lparr>fromRound = 21, toRound = 40, stamp = 2000\<rparr>,
      \<lparr>fromRound = 41, toRound = 60, stamp = 3000\<rparr>]"
    by code_simp+
  from a l fw(2) 1 fp(6) 2 s 3 4 5[unfolded ids] evaluated show ?thesis by blast
qed

text \<open>C2 as stated fails: three batches are pending and every collaborator answers. When
  the promise of \<^verbatim>\<open>runOnce()\<close> is settled the worker is busy with the second batch, one batch
  is still pending, and one chronicle has been written and stored.\<close>

theorem runOnce_returns_with_worker_busy_counterexample:
  "busy (wstate (snd (fst (runOnce exampleConfig exampleEnvs (exampleBatcher, exampleCore))))) \<and>
   lastBatchId (wstate (snd (fst (runOnce exampleConfig exampleEnvs (exampleBatcher, exampleCore))))) =
     Some \<lparr>fromRound = 21, toRound = 40, stamp = 2000\<rparr> \<and>
   length (toArray (pendingBatches
      (fst (fst (runOnce exampleConfig exampleEnvs (exampleBatcher, exampleCore)))))) = 1 \<and>
   filter is_call_writeLore
     (wtrace (snd (fst (runOnce exampleConfig exampleEnvs (exampleBatcher, exampleCore))))) =
     [Call_writeLore \<lparr>fromRound = 1, toRound = 20, stamp = 1000\<rparr>] \<and>
   length (toArray (store
      (snd (fst (runOnce exampleConfig exampleEnvs (exampleBatcher, exampleCore)))))) = 1"
  by code_simp
end
